theory Spec2Isabelle
  imports Main "HOL-Library.Multiset"
begin

section \<open>JavaScript values used by the analyzer\<close>

text \<open>
  The repository holds three scripts that compute the accounts a user follows that do not
  follow back: \<^verbatim>\<open>main.js\<close> (arrays of names, no normalisation), a first Set-based
  analyzer (suffix \<open>_p0\<close> below) and a second Set-based analyzer (no suffix), which adds
  \<^verbatim>\<open>extractDataArray\<close>, the file-loaded flags and an in-place re-sort.

  A parsed JSON document is a \<open>json\<close> value. The own properties of an object are kept as
  an association list in the order \<^verbatim>\<open>Object.keys\<close> enumerates them, with distinct
  keys, which is what \<^verbatim>\<open>JSON.parse\<close> produces. A number keeps an integer payload: the
  scripts only test numbers for truthiness. \<^verbatim>\<open>undefined\<close> is \<open>None\<close> of \<open>json option\<close>.
\<close>

datatype json =
    JNull
  | JBool bool
  | JNumber int
  | JString string
  | JArray "json list"
  | JObject "(string \<times> json) list"

type_synonym jsval = "json option"

text \<open>What the scripts can throw: \<^verbatim>\<open>new Error(message)\<close>, or the engine's TypeError
  (a property read on null or undefined, a call of something that is not a function).\<close>

datatype exn = Error string | TypeError

text \<open>\<^verbatim>\<open>v[key]\<close> for a value \<open>v\<close> that is neither null nor undefined, and a key that no
  prototype defines (every key the scripts read is such a key, or an own key).\<close>

fun get_prop :: "json \<Rightarrow> string \<Rightarrow> jsval" where
  "get_prop (JObject kvs) k = map_of kvs k"
| "get_prop _ k = None"

text \<open>\<^verbatim>\<open>v?.key\<close>: undefined when \<open>v\<close> is null.\<close>

definition opt_prop :: "json \<Rightarrow> string \<Rightarrow> jsval" where
  "opt_prop v k = (if v = JNull then None else get_prop v k)"

fun truthy :: "jsval \<Rightarrow> bool" where
  "truthy None = False"
| "truthy (Some JNull) = False"
| "truthy (Some (JBool b)) = b"
| "truthy (Some (JNumber n)) = (n \<noteq> 0)"
| "truthy (Some (JString s)) = (s \<noteq> [])"
| "truthy (Some (JArray xs)) = True"
| "truthy (Some (JObject kvs)) = True"

text \<open>\<^verbatim>\<open>Object.keys(v)\<close> for an object.\<close>

definition object_keys :: "(string \<times> json) list \<Rightarrow> string list" where
  "object_keys kvs = map fst kvs"

subsection \<open>Strings\<close>

text \<open>A string is the list of its characters. \<^verbatim>\<open>String.prototype.toLowerCase\<close> and
  \<^verbatim>\<open>String.prototype.trim\<close> belong to the platform: they follow the Unicode tables
  (\<^verbatim>\<open>toLowerCase\<close> lower-cases letters outside ASCII too, \<^verbatim>\<open>trim\<close> removes every
  Unicode white space, the no-break space included). So every function that calls them
  takes them as the parameters \<open>toLowerCase\<close> and \<open>trim\<close>, and what is proved holds
  whatever they are. \<open>asciiLowerCase\<close> and \<open>asciiTrim\<close> are what the examples are
  evaluated with: on ASCII text they are the platform's functions. \<open>asciiLowerCase\<close> maps
  \<^verbatim>\<open>A\<close> to \<^verbatim>\<open>Z\<close> to \<^verbatim>\<open>a\<close> to \<^verbatim>\<open>z\<close>, and \<open>asciiTrim\<close> removes tab, line feed,
  vertical tab, form feed, carriage return and space from both ends.\<close>

definition lower_char :: "char \<Rightarrow> char" where
  "lower_char c =
     (let n = (of_char c :: nat) in if 65 \<le> n \<and> n \<le> 90 then char_of (n + 32) else c)"

definition asciiLowerCase :: "string \<Rightarrow> string" where
  "asciiLowerCase s = map lower_char s"

definition is_space :: "char \<Rightarrow> bool" where
  "is_space c = ((of_char c :: nat) \<in> {9, 10, 11, 12, 13, 32})"

definition asciiTrim :: "string \<Rightarrow> string" where
  "asciiTrim s = rev (dropWhile is_space (rev (dropWhile is_space s)))"

text \<open>\<^verbatim>\<open>String.prototype.includes\<close> (here \<open>str_includes\<close>) looks for a contiguous piece.\<close>

fun startsWith :: "string \<Rightarrow> string \<Rightarrow> bool" where
  "startsWith s [] = True"
| "startsWith [] (d # ds) = False"
| "startsWith (c # cs) (d # ds) = (c = d \<and> startsWith cs ds)"

fun str_includes :: "string \<Rightarrow> string \<Rightarrow> bool" where
  "str_includes [] t = (t = [])"
| "str_includes (c # cs) t = (startsWith (c # cs) t \<or> str_includes cs t)"

subsection \<open>Sets, arrays and sorting\<close>

text \<open>A \<^verbatim>\<open>Set\<close> of strings is the list of its members in insertion order, without
  repetition: \<^verbatim>\<open>add\<close> appends a new member and leaves the set alone otherwise,
  \<^verbatim>\<open>has\<close> is membership, \<^verbatim>\<open>size\<close> the length, \<^verbatim>\<open>clear()\<close> the empty list and
  \<^verbatim>\<open>[...s]\<close> the list itself.\<close>

definition set_add :: "'a \<Rightarrow> 'a list \<Rightarrow> 'a list" where
  "set_add x s = (if x \<in> set s then s else s @ [x])"

text \<open>\<^verbatim>\<open>Array.prototype.sort(compare)\<close>. For a consistent comparator the language fixes the
  result: sorted, and stable. That is an insertion sort that puts an element before the
  first later element it does not follow.\<close>

fun insert_by :: "('a \<Rightarrow> 'a \<Rightarrow> int) \<Rightarrow> 'a \<Rightarrow> 'a list \<Rightarrow> 'a list" where
  "insert_by cmp x [] = [x]"
| "insert_by cmp x (y # ys) = (if cmp x y \<le> 0 then x # y # ys else y # insert_by cmp x ys)"

definition array_sort :: "('a \<Rightarrow> 'a \<Rightarrow> int) \<Rightarrow> 'a list \<Rightarrow> 'a list" where
  "array_sort cmp xs = foldr (insert_by cmp) xs []"

text \<open>\<^verbatim>\<open>a.localeCompare(b)\<close> belongs to the platform (its order depends on the locale's
  collation), so every function that sorts takes it as the parameter \<open>lcmp\<close>.
  \<open>codeUnitCompare\<close> is one such comparator, the order of the character codes; it is what
  the examples are evaluated with.\<close>

fun codeUnitCompare :: "string \<Rightarrow> string \<Rightarrow> int" where
  "codeUnitCompare [] [] = 0"
| "codeUnitCompare [] (d # ds) = - 1"
| "codeUnitCompare (c # cs) [] = 1"
| "codeUnitCompare (c # cs) (d # ds) =
     (if (of_char c :: nat) < of_char d then - 1
      else if (of_char d :: nat) < of_char c then 1
      else codeUnitCompare cs ds)"

text \<open>The collation behind \<^verbatim>\<open>localeCompare\<close> ignores some characters, the control
  characters among them, and so ties names that differ only in such a character.
  \<open>controlBlindCompare\<close> is a comparator of that kind: it compares what is left of the two
  names without their control characters.\<close>

definition is_control :: "char \<Rightarrow> bool" where
  "is_control c = ((of_char c :: nat) < 32)"

definition controlBlindCompare :: "string \<Rightarrow> string \<Rightarrow> int" where
  "controlBlindCompare a b =
     codeUnitCompare (filter (\<lambda>c. \<not> is_control c) a) (filter (\<lambda>c. \<not> is_control c) b)"

text \<open>A comparator that orders the members of \<open>A\<close> linearly and ties no two different
  members of \<open>A\<close>.\<close>

definition linear_comparator_on :: "'a set \<Rightarrow> ('a \<Rightarrow> 'a \<Rightarrow> int) \<Rightarrow> bool" where
  "linear_comparator_on A cmp =
     ((\<forall>a\<in>A. \<forall>b\<in>A. (cmp a b = 0) = (a = b)) \<and>
      (\<forall>a\<in>A. \<forall>b\<in>A. (cmp a b < 0) = (0 < cmp b a)) \<and>
      (\<forall>a\<in>A. \<forall>b\<in>A. \<forall>c\<in>A. cmp a b < 0 \<and> cmp b c < 0 \<longrightarrow> cmp a c < 0))"

text \<open>\<^verbatim>\<open>xs.forEach(f)\<close> for a callback that changes a state and may throw: the loop stops
  at the first exception, and what the earlier calls changed stays changed.\<close>

fun forEach :: "('a \<Rightarrow> 's \<Rightarrow> 's \<times> exn option) \<Rightarrow> 'a list \<Rightarrow> 's \<Rightarrow> 's \<times> exn option" where
  "forEach f [] s = (s, None)"
| "forEach f (x # xs) s =
     (case f x s of
        (s', None) \<Rightarrow> forEach f xs s'
      | (s', Some e) \<Rightarrow> (s', Some e))"

section \<open>The page state\<close>

text \<open>The \<^verbatim>\<open>state\<close> object of both analyzers, with the parts of the page they read and
  write: the text of the search box, the user names of the elements shown in the list
  container, and the errors the upload handler reported with \<^verbatim>\<open>showError\<close> (file type,
  file name, error). The first analyzer has no file-loaded flags and leaves them alone.
  Theme, toasts, chart, statistics and suggestions only display values and change none of
  these fields: they are left out.\<close>

record state =
  followers :: "string list"
  following :: "string list"
  nonFollowers :: "string list"
  uploadedFollowersData :: "json list option"
  uploadedFollowingData :: "json list option"
  sortAsc :: bool
  isDataProcessing :: bool
  followersFileLoaded :: bool
  followingFileLoaded :: bool
  searchInput :: string
  rendered :: "string list"
  errorsShown :: "(string \<times> string \<times> exn) list"

definition initial_state :: state where
  "initial_state =
     \<lparr>followers = [], following = [], nonFollowers = [],
      uploadedFollowersData = None, uploadedFollowingData = None,
      sortAsc = True, isDataProcessing = False,
      followersFileLoaded = False, followingFileLoaded = False,
      searchInput = [], rendered = [], errorsShown = []\<rparr>"

text \<open>A file picked in one of the two file inputs. \<^verbatim>\<open>FileReader.readAsText\<close> ends in
  \<^verbatim>\<open>onerror\<close> (with the text of \<^verbatim>\<open>reader.error\<close>, or \<^verbatim>\<open>Unknown error\<close>), or in
  \<^verbatim>\<open>onload\<close> with the text (or, by the script's own check, with a result that is not a
  string).\<close>

datatype file_read = ReadFailed string | ReadText string | ReadNoText

record upload_file =
  file_name :: string
  file_content :: file_read

record change_event =
  target_id :: string
  target_file :: "upload_file option"

section \<open>The second analyzer\<close>

subsection \<open>Import\<close>

text \<open>\<^verbatim>\<open>parseJsonFile\<close>. \<^verbatim>\<open>JSON.parse\<close> is the platform's: the parameter \<open>parse\<close>
  returns the parsed value, or \<open>Inl\<close> the message of the SyntaxError it throws.\<close>

definition parseJsonFile :: "(string \<Rightarrow> string + json) \<Rightarrow> upload_file \<Rightarrow> exn + json" where
  "parseJsonFile parse f =
     (case file_content f of
        ReadFailed why \<Rightarrow> Inl (Error (''File Read Error: '' @ why))
      | ReadNoText \<Rightarrow> Inl (Error ''Failed to read file content.'')
      | ReadText t \<Rightarrow>
          (case parse t of
             Inl msg \<Rightarrow> Inl (Error (''Invalid JSON: '' @ msg))
           | Inr v \<Rightarrow> Inr v))"

definition potentialKeys :: "string list" where
  "potentialKeys =
     [''relationships_followers'', ''relationships_following'',
      ''relationships_unfollowed_users'', ''string_map_data'']"

definition not_recognized :: string where
  "not_recognized =
     ''JSON data structure not recognized. Expected an array or a common wrapper object (e.g., { relationships_followers: [...] }).''"

text \<open>The \<^verbatim>\<open>for (const key of potentialKeys)\<close> loop of \<^verbatim>\<open>extractDataArray\<close>.\<close>

fun first_array_key :: "json \<Rightarrow> string list \<Rightarrow> json list option" where
  "first_array_key data [] = None"
| "first_array_key data (key # ks) =
     (case get_prop data key of
        Some (JArray xs) \<Rightarrow> Some xs
      | _ \<Rightarrow> first_array_key data ks)"

fun extractDataArray :: "json \<Rightarrow> exn + json list" where
  "extractDataArray (JArray xs) = Inr xs"
| "extractDataArray (JObject kvs) =
     (case first_array_key (JObject kvs) potentialKeys of
        Some xs \<Rightarrow> Inr xs
      | None \<Rightarrow>
          (case object_keys kvs of
             [] \<Rightarrow> Inl (Error not_recognized)
           | firstKey # _ \<Rightarrow>
               (if firstKey \<noteq> [] then
                  (case get_prop (JObject kvs) firstKey of
                     Some (JArray xs) \<Rightarrow> Inr xs
                   | _ \<Rightarrow> Inl (Error not_recognized))
                else Inl (Error not_recognized))))"
| "extractDataArray _ = Inl (Error not_recognized)"

text \<open>The callback \<^verbatim>\<open>entry => { if (entry?.value) set.add(entry.value.toLowerCase()); }\<close>:
  a truthy value that is not a string has no \<^verbatim>\<open>toLowerCase\<close>, and the call throws.\<close>

definition add_entry ::
  "(string \<Rightarrow> string) \<Rightarrow> json \<Rightarrow> string list \<Rightarrow> string list \<times> exn option" where
  "add_entry toLowerCase entry s =
     (let v = opt_prop entry ''value'' in
      if truthy v then
        (case v of
           Some (JString str) \<Rightarrow> (set_add (toLowerCase str) s, None)
         | _ \<Rightarrow> (s, Some TypeError))
      else (s, None))"

text \<open>The callback \<^verbatim>\<open>item => { item?.string_list_data?.forEach(...) }\<close>: a field that is
  missing or null is skipped; one that is present and not an array has no \<^verbatim>\<open>forEach\<close>.\<close>

definition add_item ::
  "(string \<Rightarrow> string) \<Rightarrow> json \<Rightarrow> string list \<Rightarrow> string list \<times> exn option" where
  "add_item toLowerCase item s =
     (case opt_prop item ''string_list_data'' of
        None \<Rightarrow> (s, None)
      | Some JNull \<Rightarrow> (s, None)
      | Some (JArray entries) \<Rightarrow> forEach (add_entry toLowerCase) entries s
      | Some _ \<Rightarrow> (s, Some TypeError))"

text \<open>\<^verbatim>\<open>processFollowerDataBatch\<close> and \<^verbatim>\<open>processFollowingDataBatch\<close> clear their set and
  add the names of the file to it; when a callback throws, the names added so far stay.\<close>

definition processFollowerDataBatch ::
  "(string \<Rightarrow> string) \<Rightarrow> json list \<Rightarrow> state \<Rightarrow> state \<times> exn option" where
  "processFollowerDataBatch toLowerCase dataArray st =
     (let (s, e) = forEach (add_item toLowerCase) dataArray [] in (st\<lparr>followers := s\<rparr>, e))"

definition processFollowingDataBatch ::
  "(string \<Rightarrow> string) \<Rightarrow> json list \<Rightarrow> state \<Rightarrow> state \<times> exn option" where
  "processFollowingDataBatch toLowerCase dataArray st =
     (let (s, e) = forEach (add_item toLowerCase) dataArray [] in (st\<lparr>following := s\<rparr>, e))"

subsection \<open>Analysis\<close>

definition sortNonFollowers :: "(string \<Rightarrow> string \<Rightarrow> int) \<Rightarrow> state \<Rightarrow> state" where
  "sortNonFollowers lcmp st =
     st\<lparr>nonFollowers :=
          array_sort (\<lambda>a b. let compare = lcmp a b in if sortAsc st then compare else - compare)
            (nonFollowers st)\<rparr>"

definition calculateNonFollowers :: "(string \<Rightarrow> string \<Rightarrow> int) \<Rightarrow> state \<Rightarrow> state" where
  "calculateNonFollowers lcmp st =
     (if length (following st) = 0 then st\<lparr>nonFollowers := []\<rparr>
      else sortNonFollowers lcmp
             (st\<lparr>nonFollowers := filter (\<lambda>user. user \<notin> set (followers st)) (following st)\<rparr>))"

definition renderResults :: "(string \<Rightarrow> string) \<Rightarrow> (string \<Rightarrow> string) \<Rightarrow> state \<Rightarrow> state" where
  "renderResults toLowerCase trim st =
     (if \<not> followersFileLoaded st \<or> \<not> followingFileLoaded st \<or> isDataProcessing st then
        (if \<not> isDataProcessing st then st\<lparr>rendered := []\<rparr> else st)
      else
        (let searchTerm = trim (toLowerCase (searchInput st));
             filteredUsers =
               (if searchTerm \<noteq> [] then
                  filter (\<lambda>user. str_includes (toLowerCase user) searchTerm) (nonFollowers st)
                else nonFollowers st)
         in st\<lparr>rendered := filteredUsers\<rparr>))"

text \<open>\<^verbatim>\<open>renderResults\<close> runs while \<^verbatim>\<open>isDataProcessing\<close> is set, so it returns before it
  draws; the list is drawn at the next search or sort.\<close>

definition processLoadedData ::
  "(string \<Rightarrow> string \<Rightarrow> int) \<Rightarrow> (string \<Rightarrow> string) \<Rightarrow> (string \<Rightarrow> string) \<Rightarrow> state \<Rightarrow> state" where
  "processLoadedData lcmp toLowerCase trim st =
     (if \<not> followersFileLoaded st \<or> \<not> followingFileLoaded st then st
      else if isDataProcessing st then st
      else
        (let st1 = st\<lparr>isDataProcessing := True\<rparr>;
             st2 = calculateNonFollowers lcmp st1;
             st3 = renderResults toLowerCase trim st2
         in st3\<lparr>isDataProcessing := False\<rparr>))"

definition checkAllDataReady ::
  "(string \<Rightarrow> string \<Rightarrow> int) \<Rightarrow> (string \<Rightarrow> string) \<Rightarrow> (string \<Rightarrow> string) \<Rightarrow> state \<Rightarrow> state" where
  "checkAllDataReady lcmp toLowerCase trim st =
     (if followersFileLoaded st \<and> followingFileLoaded st
      then processLoadedData lcmp toLowerCase trim st else st)"

definition toggleSort ::
  "(string \<Rightarrow> string \<Rightarrow> int) \<Rightarrow> (string \<Rightarrow> string) \<Rightarrow> (string \<Rightarrow> string) \<Rightarrow> state \<Rightarrow> state" where
  "toggleSort lcmp toLowerCase trim st =
     renderResults toLowerCase trim (sortNonFollowers lcmp (st\<lparr>sortAsc := \<not> sortAsc st\<rparr>))"

text \<open>The search box's \<^verbatim>\<open>input\<close> handler, after the debounce: the box holds the new text
  and the list is drawn again.\<close>

definition handleSearchInput ::
  "(string \<Rightarrow> string) \<Rightarrow> (string \<Rightarrow> string) \<Rightarrow> string \<Rightarrow> state \<Rightarrow> state" where
  "handleSearchInput toLowerCase trim text st =
     renderResults toLowerCase trim (st\<lparr>searchInput := text\<rparr>)"

text \<open>\<^verbatim>\<open>handleFileUpload\<close>: the \<^verbatim>\<open>catch\<close> block reports the error and marks the side as
  not loaded; it does not touch the sets.\<close>

definition upload_type :: "change_event \<Rightarrow> string" where
  "upload_type ev = (if str_includes (target_id ev) ''followers'' then ''followers'' else ''following'')"

definition upload_failed :: "string \<Rightarrow> upload_file \<Rightarrow> exn \<Rightarrow> state \<Rightarrow> state" where
  "upload_failed type f err st =
     (let st1 = st\<lparr>errorsShown := errorsShown st @ [(type, file_name f, err)]\<rparr>
      in if type = ''followers'' then st1\<lparr>followersFileLoaded := False\<rparr>
         else st1\<lparr>followingFileLoaded := False\<rparr>)"

definition handleFileUpload ::
  "(string \<Rightarrow> string + json) \<Rightarrow> (string \<Rightarrow> string \<Rightarrow> int) \<Rightarrow> (string \<Rightarrow> string) \<Rightarrow>
   (string \<Rightarrow> string) \<Rightarrow> change_event \<Rightarrow> state \<Rightarrow> state" where
  "handleFileUpload parse lcmp toLowerCase trim ev st =
     (case target_file ev of
        None \<Rightarrow> st
      | Some f \<Rightarrow>
          (let type = upload_type ev in
           case parseJsonFile parse f of
             Inl err \<Rightarrow> upload_failed type f err st
           | Inr data \<Rightarrow>
               (case extractDataArray data of
                  Inl err \<Rightarrow> upload_failed type f err st
                | Inr dataArray \<Rightarrow>
                    (if type = ''followers'' then
                       (case processFollowerDataBatch toLowerCase dataArray
                               (st\<lparr>followers := [], uploadedFollowersData := Some dataArray\<rparr>) of
                          (st1, Some err) \<Rightarrow> upload_failed type f err st1
                        | (st1, None) \<Rightarrow>
                            checkAllDataReady lcmp toLowerCase trim
                              (st1\<lparr>followersFileLoaded := True\<rparr>))
                     else
                       (case processFollowingDataBatch toLowerCase dataArray
                               (st\<lparr>following := [], uploadedFollowingData := Some dataArray\<rparr>) of
                          (st1, Some err) \<Rightarrow> upload_failed type f err st1
                        | (st1, None) \<Rightarrow>
                            checkAllDataReady lcmp toLowerCase trim
                              (st1\<lparr>followingFileLoaded := True\<rparr>))))))"

section \<open>The first analyzer\<close>

text \<open>The first analyzer finds the array with
  \<^verbatim>\<open>Array.isArray(data) ? data : data[Object.keys(data)[0]]\<close> and throws
  \<^verbatim>\<open>new Error(msg)\<close> when that is not an array (\<open>msg\<close> differs between the static
  loader and the upload handler). \<^verbatim>\<open>Object.keys(null)\<close> throws a TypeError.\<close>

definition not_an_array_static :: string where
  "not_an_array_static = ''JSON data is not an array.''"

definition not_an_array_upload :: string where
  "not_an_array_upload = ''Uploaded JSON is not an array.''"

fun dataArray_p0 :: "string \<Rightarrow> json \<Rightarrow> exn + json list" where
  "dataArray_p0 msg (JArray xs) = Inr xs"
| "dataArray_p0 msg JNull = Inl TypeError"
| "dataArray_p0 msg (JObject kvs) =
     (case object_keys kvs of
        [] \<Rightarrow> Inl (Error msg)
      | firstKey # _ \<Rightarrow>
          (case get_prop (JObject kvs) firstKey of
             Some (JArray xs) \<Rightarrow> Inr xs
           | _ \<Rightarrow> Inl (Error msg)))"
| "dataArray_p0 msg _ = Inl (Error msg)"

text \<open>\<^verbatim>\<open>processFollowerData\<close> and \<^verbatim>\<open>processFollowingData\<close> have the same body, on
  \<^verbatim>\<open>state.followers\<close> and \<^verbatim>\<open>state.following\<close>: \<open>processData_p0\<close> is that body on the
  set it is given. The item is read without \<^verbatim>\<open>?.\<close>, so a null item throws.\<close>

definition processData_p0 ::
  "(string \<Rightarrow> string) \<Rightarrow> json \<Rightarrow> string list \<Rightarrow> string list \<times> exn option" where
  "processData_p0 toLowerCase item s =
     (if item = JNull then (s, Some TypeError)
      else
        (case get_prop item ''string_list_data'' of
           None \<Rightarrow> (s, None)
         | Some JNull \<Rightarrow> (s, None)
         | Some (JArray entries) \<Rightarrow> forEach (add_entry toLowerCase) entries s
         | Some _ \<Rightarrow> (s, Some TypeError)))"

subsection \<open>Batches\<close>

text \<open>\<^verbatim>\<open>processInBatches\<close>. What a run does to the outside is a sequence of events: a
  call of the processor on an element, and a \<^verbatim>\<open>setTimeout(processBatch, 0)\<close>, which
  gives the page its turn before the next slice of elements. A run keeps the loop index,
  the state the processor works on, and the events so far. The promise resolves when
  \<^verbatim>\<open>processBatch\<close> finds the index at the end: \<open>Some\<close> of the final run. A processor
  returns the state it leaves and the exception it threw, if any; the \<^verbatim>\<open>catch\<close> around
  the call only logs the exception.\<close>

datatype 'a event = Call 'a | Yield

record ('a, 's) run =
  index :: nat
  ust :: 's
  events :: "'a event list"

definition call_processor :: "('a \<Rightarrow> 's \<Rightarrow> 's \<times> exn option) \<Rightarrow> 'a \<Rightarrow> ('a, 's) run \<Rightarrow> ('a, 's) run" where
  "call_processor processor x r =
     (case processor x (ust r) of
        (s, e) \<Rightarrow> r\<lparr>ust := s, events := events r @ [Call x]\<rparr>)"

text \<open>The loop \<^verbatim>\<open>for (; index < end; index++)\<close>; \<open>stop\<close> is \<^verbatim>\<open>end\<close>, never beyond the
  length of the data.\<close>

function batch_loop ::
  "('a \<Rightarrow> 's \<Rightarrow> 's \<times> exn option) \<Rightarrow> 'a list \<Rightarrow> nat \<Rightarrow> ('a, 's) run \<Rightarrow> ('a, 's) run" where
  "batch_loop processor data stop r =
     (if index r < stop then
        batch_loop processor data stop
          ((call_processor processor (data ! index r) r)\<lparr>index := index r + 1\<rparr>)
      else r)"
  by pat_completeness auto
termination
  by (relation "measure (\<lambda>(processor, data, stop, r). stop - index r)")
     (auto simp: call_processor_def split: prod.splits option.splits)

declare batch_loop.simps [simp del]

partial_function (option) processBatch ::
  "nat \<Rightarrow> ('a \<Rightarrow> 's \<Rightarrow> 's \<times> exn option) \<Rightarrow> 'a list \<Rightarrow> ('a, 's) run \<Rightarrow> ('a, 's) run option" where
  "processBatch batchSize processor data r =
     (let totalItems = length data;
          stop = min (index r + batchSize) totalItems;
          r1 = batch_loop processor data stop r
      in if index r1 < totalItems then
           processBatch batchSize processor data (r1\<lparr>events := events r1 @ [Yield]\<rparr>)
         else Some r1)"

definition CONFIG_batchSize :: nat where
  "CONFIG_batchSize = 500"

definition new_run :: "'s \<Rightarrow> ('a, 's) run" where
  "new_run s = \<lparr>index = 0, ust = s, events = []\<rparr>"

definition processInBatches ::
  "'a list \<Rightarrow> ('a \<Rightarrow> 's \<Rightarrow> 's \<times> exn option) \<Rightarrow> 's \<Rightarrow> ('a, 's) run option" where
  "processInBatches data processor s = processBatch CONFIG_batchSize processor data (new_run s)"

subsection \<open>Analysis\<close>

definition calculateNonFollowers_p0 :: "(string \<Rightarrow> string \<Rightarrow> int) \<Rightarrow> state \<Rightarrow> state" where
  "calculateNonFollowers_p0 lcmp st =
     st\<lparr>nonFollowers :=
          array_sort (\<lambda>a b. if sortAsc st then lcmp a b else lcmp b a)
            (filter (\<lambda>user. user \<notin> set (followers st)) (following st))\<rparr>"

definition renderResults_p0 ::
  "(string \<Rightarrow> string \<Rightarrow> int) \<Rightarrow> (string \<Rightarrow> string) \<Rightarrow> state \<Rightarrow> state" where
  "renderResults_p0 lcmp toLowerCase st =
     (let searchTerm = toLowerCase (searchInput st);
          filteredUsers =
            filter (\<lambda>user. str_includes (toLowerCase user) searchTerm) (nonFollowers st)
      in st\<lparr>rendered :=
              array_sort (\<lambda>a b. if sortAsc st then lcmp a b else lcmp b a) filteredUsers\<rparr>)"


definition toggleSort_p0 ::
  "(string \<Rightarrow> string \<Rightarrow> int) \<Rightarrow> (string \<Rightarrow> string) \<Rightarrow> state \<Rightarrow> state" where
  "toggleSort_p0 lcmp toLowerCase st =
     renderResults_p0 lcmp toLowerCase (st\<lparr>sortAsc := \<not> sortAsc st\<rparr>)"

section \<open>main.js\<close>

text \<open>\<^verbatim>\<open>main.js\<close> keeps the names in two arrays and pushes \<^verbatim>\<open>stringData.value\<close> as it
  is: any value, \<^verbatim>\<open>undefined\<close> included. The page shows one paragraph of names for every
  non-empty result.\<close>

record main_state =
  followingNames :: "jsval list"
  followersNames :: "jsval list"
  paragraphs :: "jsval list list"

datatype names_array = FollowersNames | FollowingNames

text \<open>\<^verbatim>\<open>Array.prototype.includes\<close> compares with SameValueZero: primitives by value, and
  an object or array only with itself, which a name parsed from the other file never is.\<close>

fun same_value_zero :: "jsval \<Rightarrow> jsval \<Rightarrow> bool" where
  "same_value_zero (Some (JArray xs)) w = False"
| "same_value_zero (Some (JObject kvs)) w = False"
| "same_value_zero v w = (v = w)"

definition array_includes :: "jsval list \<Rightarrow> jsval \<Rightarrow> bool" where
  "array_includes xs v = list_ex (\<lambda>x. same_value_zero x v) xs"

definition usersWhoDontFollowBack :: "main_state \<Rightarrow> jsval list" where
  "usersWhoDontFollowBack st =
     filter (\<lambda>name. \<not> array_includes (followersNames st) name) (followingNames st)"

definition getUsersWhoDonotFollowBack :: "main_state \<Rightarrow> main_state" where
  "getUsersWhoDonotFollowBack st =
     (if length (usersWhoDontFollowBack st) > 0
      then st\<lparr>paragraphs := paragraphs st @ [usersWhoDontFollowBack st]\<rparr>
      else st)"

text \<open>The callback \<^verbatim>\<open>stringData => { namesArray.push(stringData.value); }\<close>.\<close>

definition push_value :: "json \<Rightarrow> jsval list \<Rightarrow> jsval list \<times> exn option" where
  "push_value stringData names =
     (if stringData = JNull then (names, Some TypeError)
      else (names @ [get_prop stringData ''value''], None))"

text \<open>The callback of \<^verbatim>\<open>data.forEach\<close>: an item without a truthy
  \<^verbatim>\<open>string_list_data\<close> is logged and skipped.\<close>

definition push_item :: "json \<Rightarrow> jsval list \<Rightarrow> jsval list \<times> exn option" where
  "push_item item names =
     (if item = JNull then (names, Some TypeError)
      else if \<not> truthy (get_prop item ''string_list_data'') then (names, None)
      else
        (case get_prop item ''string_list_data'' of
           Some (JArray entries) \<Rightarrow> forEach push_value entries names
         | _ \<Rightarrow> (names, Some TypeError)))"

text \<open>What \<^verbatim>\<open>fetch\<close> and \<^verbatim>\<open>response.json()\<close> give.\<close>

datatype fetched = FetchFailed | ResponseNotOk | BodyNotJson | Body json

definition names_of :: "names_array \<Rightarrow> main_state \<Rightarrow> jsval list" where
  "names_of a st = (case a of FollowersNames \<Rightarrow> followersNames st | FollowingNames \<Rightarrow> followingNames st)"

definition set_names :: "names_array \<Rightarrow> jsval list \<Rightarrow> main_state \<Rightarrow> main_state" where
  "set_names a names st =
     (case a of
        FollowersNames \<Rightarrow> st\<lparr>followersNames := names\<rparr>
      | FollowingNames \<Rightarrow> st\<lparr>followingNames := names\<rparr>)"

text \<open>\<^verbatim>\<open>fetchAndProcessJSON\<close>: every failure ends in the \<^verbatim>\<open>catch\<close>, which only logs.\<close>

definition fetchAndProcessJSON :: "fetched \<Rightarrow> names_array \<Rightarrow> main_state \<Rightarrow> main_state" where
  "fetchAndProcessJSON response namesArray st =
     (case response of
        Body (JArray items) \<Rightarrow>
          (case forEach push_item items (names_of namesArray st) of
             (names, Some e) \<Rightarrow> set_names namesArray names st
           | (names, None) \<Rightarrow>
               (let st1 = set_names namesArray names st
                in if length names > 0 then getUsersWhoDonotFollowBack st1 else st1))
      | _ \<Rightarrow> st)"

section \<open>What the properties are stated with\<close>

text \<open>\<^verbatim>\<open>Array.isArray\<close>.\<close>

fun isArray :: "jsval \<Rightarrow> bool" where
  "isArray (Some (JArray xs)) = True"
| "isArray _ = False"




text \<open>The user names a file holds: the non-empty string \<^verbatim>\<open>value\<close>s of the entries of its
  records, in file order.\<close>

definition entry_value :: "json \<Rightarrow> string list" where
  "entry_value entry =
     (case opt_prop entry ''value'' of
        Some (JString s) \<Rightarrow> (if s \<noteq> [] then [s] else [])
      | _ \<Rightarrow> [])"

definition record_values :: "json \<Rightarrow> string list" where
  "record_values item =
     (case opt_prop item ''string_list_data'' of
        Some (JArray entries) \<Rightarrow> concat (map entry_value entries)
      | _ \<Rightarrow> [])"

definition file_values :: "json list \<Rightarrow> string list" where
  "file_values items = concat (map record_values items)"

text \<open>Adding names to a set one after the other.\<close>

definition add_all :: "string list \<Rightarrow> string list \<Rightarrow> string list" where
  "add_all names s = foldl (\<lambda>acc x. set_add x acc) s names"


text \<open>The two sets hold no name twice and no empty name.\<close>

definition sets_ok :: "state \<Rightarrow> bool" where
  "sets_ok st =
     (distinct (followers st) \<and> distinct (following st) \<and>
      [] \<notin> set (followers st) \<and> [] \<notin> set (following st))"

text \<open>A sequence of uploads, one \<^verbatim>\<open>change\<close> event after the other, in the order in
  which their files have been read: what \<^verbatim>\<open>handleFileUpload\<close> does after its one
  \<^verbatim>\<open>await\<close> runs without interruption.\<close>

definition uploads ::
  "(string \<Rightarrow> string + json) \<Rightarrow> (string \<Rightarrow> string \<Rightarrow> int) \<Rightarrow> (string \<Rightarrow> string) \<Rightarrow>
   (string \<Rightarrow> string) \<Rightarrow> change_event list \<Rightarrow> state \<Rightarrow> state" where
  "uploads parse lcmp toLowerCase trim evs st =
     foldl (\<lambda>s ev. handleFileUpload parse lcmp toLowerCase trim ev s) st evs"

text \<open>Calling the processor on each element of a list, in order.\<close>

definition run_items ::
  "('a \<Rightarrow> 's \<Rightarrow> 's \<times> exn option) \<Rightarrow> 'a list \<Rightarrow> ('a, 's) run \<Rightarrow> ('a, 's) run" where
  "run_items processor xs r = foldl (\<lambda>acc x. call_processor processor x acc) r xs"

text \<open>The ceiling of \<open>n / b\<close>.\<close>

definition ceil_div :: "nat \<Rightarrow> nat \<Rightarrow> nat" where
  "ceil_div n b = (n + b - 1) div b"

text \<open>The batches of an array: its consecutive slices of \<open>b\<close> elements, the last one
  with what is left. The empty array has no batch.\<close>

function slices :: "nat \<Rightarrow> 'a list \<Rightarrow> 'a list list" where
  "slices b xs = (if b = 0 \<or> xs = [] then [] else take b xs # slices b (drop b xs))"
  by pat_completeness auto
termination
  by (relation "measure (\<lambda>(b, xs). length xs)") auto

declare slices.simps [simp del]

text \<open>The events of a run that works through the batches one after the other: the calls
  of a batch without interruption, and one \<^verbatim>\<open>setTimeout\<close> between two batches.\<close>

fun batch_events :: "'a list list \<Rightarrow> 'a event list" where
  "batch_events [] = []"
| "batch_events [c] = map Call c"
| "batch_events (c # d # cs) = map Call c @ Yield # batch_events (d # cs)"

text \<open>The elements the processor was called on, in call order, and the number of times
  the run handed itself to \<^verbatim>\<open>setTimeout\<close>.\<close>

fun calls_of :: "'a event list \<Rightarrow> 'a list" where
  "calls_of [] = []"
| "calls_of (Call x # es) = x # calls_of es"
| "calls_of (Yield # es) = calls_of es"

fun yields_of :: "'a event list \<Rightarrow> nat" where
  "yields_of [] = 0"
| "yields_of (Call x # es) = yields_of es"
| "yields_of (Yield # es) = yields_of es + 1"

text \<open>A set as an import leaves it: no name twice, no empty name.\<close>

definition stored_ok :: "string list \<Rightarrow> bool" where
  "stored_ok s = (distinct s \<and> [] \<notin> set s)"

text \<open>The value of an object's first own property; \<^verbatim>\<open>undefined\<close> for an object without
  properties.\<close>

definition first_property_value :: "(string \<times> json) list \<Rightarrow> jsval" where
  "first_property_value kvs = (case kvs of [] \<Rightarrow> None | (k, v) # rest \<Rightarrow> Some v)"

section \<open>Sorting\<close>

lemma mset_insert_by: "mset (insert_by cmp x ys) = add_mset x (mset ys)"
  by (induction ys) auto

lemma mset_array_sort: "mset (array_sort cmp xs) = mset xs"
  unfolding array_sort_def by (induction xs) (auto simp: mset_insert_by)

lemma set_array_sort: "set (array_sort cmp xs) = set xs"
  using mset_array_sort [of cmp xs] by (metis set_mset_mset)

lemma distinct_array_sort: "distinct (array_sort cmp xs) = distinct xs"
  using mset_array_sort [of cmp xs] by (metis mset_eq_imp_distinct_iff)

lemma set_insert_by: "set (insert_by c x ys) = insert x (set ys)"
  using mset_insert_by [of c x ys] by (metis set_mset_add_mset_insert set_mset_mset)

lemma linear_comparator_on_refl: "linear_comparator_on A c \<Longrightarrow> a \<in> A \<Longrightarrow> c a a = 0"
  by (simp add: linear_comparator_on_def)

lemma linear_comparator_on_eq:
  "linear_comparator_on A c \<Longrightarrow> a \<in> A \<Longrightarrow> b \<in> A \<Longrightarrow> c a b = 0 \<Longrightarrow> a = b"
  by (simp add: linear_comparator_on_def)

lemma linear_comparator_on_flip:
  "linear_comparator_on A c \<Longrightarrow> a \<in> A \<Longrightarrow> b \<in> A \<Longrightarrow> (c a b < 0) = (0 < c b a)"
  by (simp add: linear_comparator_on_def)

lemma linear_comparator_on_trans:
  "linear_comparator_on A c \<Longrightarrow> a \<in> A \<Longrightarrow> b \<in> A \<Longrightarrow> d \<in> A \<Longrightarrow>
   c a b < 0 \<Longrightarrow> c b d < 0 \<Longrightarrow> c a d < 0"
  unfolding linear_comparator_on_def by blast

lemma linear_comparator_on_asym:
  "linear_comparator_on A c \<Longrightarrow> a \<in> A \<Longrightarrow> b \<in> A \<Longrightarrow> c a b < 0 \<Longrightarrow> \<not> c b a < 0"
  using linear_comparator_on_flip [of A c a b] by auto

lemma linear_comparator_on_subset:
  "linear_comparator_on A c \<Longrightarrow> B \<subseteq> A \<Longrightarrow> linear_comparator_on B c"
  unfolding linear_comparator_on_def by blast

lemma linear_comparator_on_swap:
  assumes "linear_comparator_on A c"
  shows "linear_comparator_on A (\<lambda>a b. c b a)"
  unfolding linear_comparator_on_def
proof (intro conjI ballI)
  fix a b
  assume ab: "a \<in> A" "b \<in> A"
  show "(c b a = 0) = (a = b)"
    using assms ab unfolding linear_comparator_on_def by auto
  show "(c b a < 0) = (0 < c a b)"
    using linear_comparator_on_flip [OF assms ab(2) ab(1)] .
  fix d
  assume d: "d \<in> A"
  show "c b a < 0 \<and> c d b < 0 \<longrightarrow> c d a < 0"
    using linear_comparator_on_trans [OF assms d ab(2) ab(1)] by blast
qed

lemma linear_comparator_on_neg:
  assumes "linear_comparator_on A c"
  shows "linear_comparator_on A (\<lambda>a b. - c a b)"
  unfolding linear_comparator_on_def
proof (intro conjI ballI)
  fix a b
  assume ab: "a \<in> A" "b \<in> A"
  show "(- c a b = 0) = (a = b)"
    using assms ab unfolding linear_comparator_on_def by auto
  show "(- c a b < 0) = (0 < - c b a)"
    using linear_comparator_on_flip [OF assms ab(2) ab(1)] by auto
  fix d
  assume d: "d \<in> A"
  have f1: "(- c a b < 0) = (c b a < 0)"
    using linear_comparator_on_flip [OF assms ab(2) ab(1)] by auto
  have f2: "(- c b d < 0) = (c d b < 0)"
    using linear_comparator_on_flip [OF assms d ab(2)] by auto
  have f3: "(- c a d < 0) = (c d a < 0)"
    using linear_comparator_on_flip [OF assms d ab(1)] by auto
  show "- c a b < 0 \<and> - c b d < 0 \<longrightarrow> - c a d < 0"
    unfolding f1 f2 f3
    using linear_comparator_on_trans [OF assms d ab(2) ab(1)] by blast
qed

lemma sorted_insert_by:
  assumes "linear_comparator_on A c"
  shows "sorted_wrt (\<lambda>a b. c a b < 0) ys \<Longrightarrow> x \<notin> set ys \<Longrightarrow> x \<in> A \<Longrightarrow> set ys \<subseteq> A \<Longrightarrow>
         sorted_wrt (\<lambda>a b. c a b < 0) (insert_by c x ys)"
proof (induction ys)
  case Nil
  then show ?case by simp
next
  case (Cons y ys)
  have xy: "x \<noteq> y" using Cons.prems(2) by auto
  have yA: "y \<in> A" using Cons.prems(4) by simp
  show ?case
  proof (cases "c x y \<le> 0")
    case True
    then have lt: "c x y < 0"
      using linear_comparator_on_eq [OF assms Cons.prems(3) yA] xy by (cases "c x y = 0") auto
    have "c x z < 0" if "z \<in> set ys" for z
    proof -
      have zA: "z \<in> A" using that Cons.prems(4) by auto
      have "c y z < 0" using Cons.prems(1) that by auto
      then show ?thesis
        using linear_comparator_on_trans [OF assms Cons.prems(3) yA zA lt] by simp
    qed
    then show ?thesis using True lt Cons.prems(1) by auto
  next
    case False
    then have "c y x < 0"
      using linear_comparator_on_flip [OF assms yA Cons.prems(3)] by auto
    then show ?thesis using False Cons by (auto simp: set_insert_by)
  qed
qed

lemma sorted_array_sort:
  assumes "linear_comparator_on A c"
  shows "distinct xs \<Longrightarrow> set xs \<subseteq> A \<Longrightarrow> sorted_wrt (\<lambda>a b. c a b < 0) (array_sort c xs)"
proof (induction xs)
  case Nil
  then show ?case by (simp add: array_sort_def)
next
  case (Cons x xs)
  have "sorted_wrt (\<lambda>a b. c a b < 0) (insert_by c x (array_sort c xs))"
    using Cons by (intro sorted_insert_by [OF assms]) (auto simp: set_array_sort)
  then show ?case by (simp add: array_sort_def)
qed

lemma sorted_wrt_unique:
  assumes "linear_comparator_on A c"
  shows "sorted_wrt (\<lambda>a b. c a b < 0) xs \<Longrightarrow> sorted_wrt (\<lambda>a b. c a b < 0) ys \<Longrightarrow>
         set xs = set ys \<Longrightarrow> set xs \<subseteq> A \<Longrightarrow> xs = ys"
proof (induction xs arbitrary: ys)
  case Nil
  then show ?case by simp
next
  case (Cons x xs)
  then obtain y ys' where ys: "ys = y # ys'" by (cases ys) auto
  have xA: "x \<in> A" using Cons.prems(4) by simp
  have yA: "y \<in> A" using Cons.prems(3,4) ys by auto
  have irr: "\<not> c a a < 0" if "a \<in> A" for a
    using linear_comparator_on_refl [OF assms that] by simp
  have x_notin: "x \<notin> set xs" using Cons.prems(1) irr [OF xA] by auto
  have y_notin: "y \<notin> set ys'" using Cons.prems(2) ys irr [OF yA] by auto
  have "x = y"
  proof (rule ccontr)
    assume n: "x \<noteq> y"
    have "x \<in> set ys'" using Cons.prems(3) ys n by auto
    then have 1: "c y x < 0" using Cons.prems(2) ys by auto
    have "y \<in> set xs" using Cons.prems(3) ys n by auto
    then have 2: "c x y < 0" using Cons.prems(1) by auto
    show False using linear_comparator_on_asym [OF assms yA xA 1] 2 by simp
  qed
  moreover have "set xs = set ys'"
    using Cons.prems(3) ys x_notin y_notin \<open>x = y\<close> by auto
  moreover have "set xs \<subseteq> A" using Cons.prems(4) by simp
  ultimately show ?case
    using Cons.IH [of ys'] Cons.prems(1,2) ys by simp
qed

lemma array_sort_reversed:
  assumes "linear_comparator_on A c" and "linear_comparator_on A c'"
    and flip: "\<And>a b. a \<in> A \<Longrightarrow> b \<in> A \<Longrightarrow> (c' a b < 0) = (c b a < 0)"
    and "distinct xs" and "distinct ys" and "set ys = set xs" and "set xs \<subseteq> A"
  shows "array_sort c' ys = rev (array_sort c xs)"
proof -
  have sub: "set (array_sort c xs) \<subseteq> A" using assms(7) by (simp add: set_array_sort)
  have 1: "sorted_wrt (\<lambda>a b. c' a b < 0) (array_sort c' ys)"
    using sorted_array_sort [OF assms(2) assms(5)] assms(6,7) by simp
  have "sorted_wrt (\<lambda>a b. c a b < 0) (array_sort c xs)"
    using sorted_array_sort [OF assms(1) assms(4) assms(7)] .
  then have "sorted_wrt (\<lambda>a b. c' b a < 0) (array_sort c xs)"
  proof (rule sorted_wrt_mono_rel [rotated])
    fix x y
    assume "x \<in> set (array_sort c xs)" "y \<in> set (array_sort c xs)" "c x y < 0"
    then show "c' y x < 0" using flip [of y x] sub by blast
  qed
  then have 2: "sorted_wrt (\<lambda>a b. c' a b < 0) (rev (array_sort c xs))"
    by (simp add: sorted_wrt_rev)
  have 3: "set (array_sort c' ys) = set (rev (array_sort c xs))"
    using assms(6) by (simp add: set_array_sort)
  have 4: "set (array_sort c' ys) \<subseteq> A"
    using assms(6,7) by (simp add: set_array_sort)
  show ?thesis
    by (rule sorted_wrt_unique [OF assms(2) 1 2 3 4])
qed

lemma codeUnitCompare_eq: "(codeUnitCompare a b = 0) = (a = b)"
  by (induction a b rule: codeUnitCompare.induct) auto

lemma codeUnitCompare_flip: "(codeUnitCompare a b < 0) = (0 < codeUnitCompare b a)"
  by (induction a b rule: codeUnitCompare.induct) auto

lemma codeUnitCompare_Cons_less:
  "(codeUnitCompare (x # xs) (y # ys) < 0) =
     ((of_char x :: nat) < of_char y \<or> (of_char x :: nat) = of_char y \<and> codeUnitCompare xs ys < 0)"
  by auto

lemma codeUnitCompare_trans:
  "codeUnitCompare a b < 0 \<Longrightarrow> codeUnitCompare b d < 0 \<Longrightarrow> codeUnitCompare a d < 0"
proof (induction a arbitrary: b d)
  case Nil
  then show ?case by (cases b; cases d) simp_all
next
  case (Cons x xs)
  from Cons.prems(1) obtain y ys where b: "b = y # ys" by (cases b) simp_all
  from Cons.prems(2) b obtain z zs where d: "d = z # zs" by (cases d) simp_all
  have 1: "(of_char x :: nat) < of_char y \<or>
           (of_char x :: nat) = of_char y \<and> codeUnitCompare xs ys < 0"
    using Cons.prems(1) unfolding b codeUnitCompare_Cons_less .
  have 2: "(of_char y :: nat) < of_char z \<or>
           (of_char y :: nat) = of_char z \<and> codeUnitCompare ys zs < 0"
    using Cons.prems(2) unfolding b d codeUnitCompare_Cons_less .
  have "(of_char x :: nat) < of_char z \<or>
        (of_char x :: nat) = of_char z \<and> codeUnitCompare xs zs < 0"
    using 1 2 Cons.IH [of ys zs] by linarith
  then show ?case unfolding d codeUnitCompare_Cons_less .
qed

text \<open>The order of the character codes is linear on every set of names.\<close>

lemma linear_codeUnitCompare: "linear_comparator_on A codeUnitCompare"
  unfolding linear_comparator_on_def
proof (intro conjI ballI)
  fix a b d
  show "(codeUnitCompare a b = 0) = (a = b)" by (rule codeUnitCompare_eq)
  show "(codeUnitCompare a b < 0) = (0 < codeUnitCompare b a)" by (rule codeUnitCompare_flip)
  show "codeUnitCompare a b < 0 \<and> codeUnitCompare b d < 0 \<longrightarrow> codeUnitCompare a d < 0"
    using codeUnitCompare_trans by blast
qed

text \<open>Sorting with the comparator of the sort flag, as both analyzers write it.\<close>

lemma sorted_rendered_p0:
  assumes "linear_comparator_on (set xs) lcmp" and "distinct xs"
  shows "sorted_wrt (\<lambda>a b. if asc then lcmp a b < 0 else lcmp b a < 0)
           (array_sort (\<lambda>a b. if asc then lcmp a b else lcmp b a) (filter P xs))"
proof (cases asc)
  case True
  have "sorted_wrt (\<lambda>a b. lcmp a b < 0) (array_sort lcmp (filter P xs))"
    using sorted_array_sort [OF assms(1), of "filter P xs"] assms(2) by auto
  then show ?thesis using True by simp
next
  case False
  have "sorted_wrt (\<lambda>a b. lcmp b a < 0) (array_sort (\<lambda>a b. lcmp b a) (filter P xs))"
    using sorted_array_sort [OF linear_comparator_on_swap [OF assms(1)], of "filter P xs"] assms(2)
    by auto
  then show ?thesis using False by simp
qed


lemma array_includes_string:
  "array_includes (map (\<lambda>a. Some (JString a)) F) (Some (JString u)) = (u \<in> set F)"
  by (induction F) (auto simp: array_includes_def)

lemma usersWhoDontFollowBack_strings:
  "usersWhoDontFollowBack
     \<lparr>followingNames = map (\<lambda>a. Some (JString a)) G,
      followersNames = map (\<lambda>a. Some (JString a)) F, paragraphs = ps\<rparr> =
   map (\<lambda>a. Some (JString a)) (filter (\<lambda>u. u \<notin> set F) G)"
  by (induction G) (auto simp: usersWhoDontFollowBack_def array_includes_string)

section \<open>What an import adds to a set\<close>


lemma forEach_preserves:
  assumes "\<And>x s s' e. f x s = (s', e) \<Longrightarrow> P s \<Longrightarrow> P s'"
  shows "P s \<Longrightarrow> forEach f xs s = (s', e) \<Longrightarrow> P s'"
proof (induction xs arbitrary: s)
  case Nil
  then show ?case by simp
next
  case (Cons x xs)
  obtain s1 e1 where fx: "f x s = (s1, e1)" by (cases "f x s")
  have p1: "P s1" using assms [OF fx] Cons.prems(1) .
  show ?case
  proof (cases e1)
    case None
    with Cons.prems(2) fx have "forEach f xs s1 = (s', e)" by simp
    then show ?thesis using Cons.IH p1 by blast
  next
    case (Some a)
    with Cons.prems(2) fx have "s' = s1" by simp
    then show ?thesis using p1 by simp
  qed
qed

lemma forEach_None_foldl:
  assumes "\<And>x s s'. f x s = (s', None) \<Longrightarrow> s' = g x s"
  shows "forEach f xs s = (s', None) \<Longrightarrow> s' = foldl (\<lambda>acc x. g x acc) s xs"
proof (induction xs arbitrary: s)
  case Nil
  then show ?case by simp
next
  case (Cons x xs)
  obtain s1 e1 where fx: "f x s = (s1, e1)" by (cases "f x s")
  show ?case
  proof (cases e1)
    case None
    with Cons.prems fx have r: "forEach f xs s1 = (s', None)" by simp
    have "s1 = g x s" using assms fx None by simp
    with Cons.IH [OF r] show ?thesis by simp
  next
    case (Some a)
    with Cons.prems fx show ?thesis by simp
  qed
qed

text \<open>Whether or not the loop throws, what it added comes from the elements it was given.\<close>

lemma forEach_adds:
  assumes "\<And>x s s' e. f x s = (s', e) \<Longrightarrow> set s' \<subseteq> set s \<union> g x"
  shows "forEach f xs s = (s', e) \<Longrightarrow> set s' \<subseteq> set s \<union> (\<Union>x\<in>set xs. g x)"
proof (induction xs arbitrary: s)
  case Nil
  then show ?case by simp
next
  case (Cons x xs)
  obtain s1 e1 where fx: "f x s = (s1, e1)" by (cases "f x s")
  have s1: "set s1 \<subseteq> set s \<union> g x" using assms [OF fx] .
  show ?case
  proof (cases e1)
    case None
    with Cons.prems fx have "forEach f xs s1 = (s', e)" by simp
    then have "set s' \<subseteq> set s1 \<union> (\<Union>x\<in>set xs. g x)" by (rule Cons.IH)
    with s1 show ?thesis by auto
  next
    case (Some a)
    with Cons.prems fx have "s' = s1" by simp
    with s1 show ?thesis by auto
  qed
qed

lemma add_all_Nil [simp]: "add_all [] s = s"
  by (simp add: add_all_def)

lemma add_all_Cons [simp]: "add_all (x # xs) s = add_all xs (set_add x s)"
  by (simp add: add_all_def)

lemma add_all_append: "add_all (xs @ ys) s = add_all ys (add_all xs s)"
  by (simp add: add_all_def)

lemma set_set_add [simp]: "set (set_add x s) = insert x (set s)"
  by (auto simp: set_add_def)

lemma distinct_set_add [simp]: "distinct (set_add x s) = distinct s"
  by (auto simp: set_add_def)

lemma set_add_all [simp]: "set (add_all xs s) = set s \<union> set xs"
  by (induction xs arbitrary: s) auto

lemma distinct_add_all [simp]: "distinct (add_all xs s) = distinct s"
  by (induction xs arbitrary: s) auto

lemma add_entry_None:
  "add_entry toLowerCase e s = (s', None) \<Longrightarrow>
   s' = add_all (map toLowerCase (entry_value e)) s"
  by (cases "opt_prop e ''value''")
     (auto simp: add_entry_def entry_value_def Let_def split: json.splits if_splits)

lemma add_entries_None:
  "forEach (add_entry toLowerCase) es s = (s', None) \<Longrightarrow>
   s' = add_all (map toLowerCase (concat (map entry_value es))) s"
proof -
  assume a: "forEach (add_entry toLowerCase) es s = (s', None)"
  have "s' = foldl (\<lambda>acc e. add_all (map toLowerCase (entry_value e)) acc) s es"
    using forEach_None_foldl [of "add_entry toLowerCase"
        "\<lambda>e s. add_all (map toLowerCase (entry_value e)) s", OF _ a]
      add_entry_None by blast
  also have "\<dots> = add_all (map toLowerCase (concat (map entry_value es))) s"
    by (induction es arbitrary: s) (auto simp: add_all_append)
  finally show ?thesis .
qed

lemma add_item_None:
  "add_item toLowerCase item s = (s', None) \<Longrightarrow>
   s' = add_all (map toLowerCase (record_values item)) s"
  by (cases "opt_prop item ''string_list_data''")
     (auto simp: add_item_def record_values_def split: json.splits dest: add_entries_None)

lemma add_items_None:
  "forEach (add_item toLowerCase) items s = (s', None) \<Longrightarrow>
   s' = add_all (map toLowerCase (file_values items)) s"
proof -
  assume a: "forEach (add_item toLowerCase) items s = (s', None)"
  have "s' = foldl (\<lambda>acc e. add_all (map toLowerCase (record_values e)) acc) s items"
    using forEach_None_foldl [of "add_item toLowerCase"
        "\<lambda>e s. add_all (map toLowerCase (record_values e)) s", OF _ a]
      add_item_None by blast
  also have "\<dots> = add_all (map toLowerCase (file_values items)) s"
    unfolding file_values_def by (induction items arbitrary: s) (auto simp: add_all_append)
  finally show ?thesis .
qed

lemma add_entry_adds:
  "add_entry toLowerCase e s = (s', r) \<Longrightarrow>
   set s' \<subseteq> set s \<union> toLowerCase ` set (entry_value e)"
  by (cases "opt_prop e ''value''")
     (auto simp: add_entry_def entry_value_def Let_def split: json.splits if_splits)

lemma add_entries_adds:
  "forEach (add_entry toLowerCase) es s = (s', r) \<Longrightarrow>
   set s' \<subseteq> set s \<union> toLowerCase ` set (concat (map entry_value es))"
proof -
  assume a: "forEach (add_entry toLowerCase) es s = (s', r)"
  have "set s' \<subseteq> set s \<union> (\<Union>e\<in>set es. toLowerCase ` set (entry_value e))"
    using a by (rule forEach_adds [rotated]) (rule add_entry_adds)
  then show ?thesis by auto
qed

lemma add_item_adds:
  "add_item toLowerCase item s = (s', r) \<Longrightarrow>
   set s' \<subseteq> set s \<union> toLowerCase ` set (record_values item)"
  by (cases "opt_prop item ''string_list_data''")
     (auto simp: add_item_def record_values_def split: json.splits dest!: add_entries_adds)

lemma add_items_adds:
  "forEach (add_item toLowerCase) items s = (s', r) \<Longrightarrow>
   set s' \<subseteq> set s \<union> toLowerCase ` set (file_values items)"
proof -
  assume a: "forEach (add_item toLowerCase) items s = (s', r)"
  have "set s' \<subseteq> set s \<union> (\<Union>e\<in>set items. toLowerCase ` set (record_values e))"
    using a by (rule forEach_adds [rotated]) (rule add_item_adds)
  then show ?thesis by (auto simp: file_values_def)
qed

section \<open>The non-followers are the followed accounts that do not follow back\<close>

text \<open>
  C1. In all three scripts the computed result holds exactly the names of the following
  collection that are not in the followers collection: as a set for the two analyzers, which
  sort the result, and as the filtered array for \<^verbatim>\<open>main.js\<close> on collections of user names
  \<open>F\<close> and \<open>G\<close>. Inputs that hold the same names in another order give the same set.
\<close>

theorem C1_non_followers_set:
  "set (nonFollowers (calculateNonFollowers lcmp st)) =
     {u \<in> set (following st). u \<notin> set (followers st)} \<and>
   set (nonFollowers (calculateNonFollowers_p0 lcmp st)) =
     {u \<in> set (following st). u \<notin> set (followers st)} \<and>
   usersWhoDontFollowBack
     \<lparr>followingNames = map (\<lambda>a. Some (JString a)) G,
      followersNames = map (\<lambda>a. Some (JString a)) F, paragraphs = ps\<rparr> =
     map (\<lambda>a. Some (JString a)) (filter (\<lambda>u. u \<notin> set F) G) \<and>
   (set (followers st') = set (followers st) \<and> set (following st') = set (following st) \<longrightarrow>
      set (nonFollowers (calculateNonFollowers lcmp st')) =
        set (nonFollowers (calculateNonFollowers lcmp st)) \<and>
      set (nonFollowers (calculateNonFollowers_p0 lcmp st')) =
        set (nonFollowers (calculateNonFollowers_p0 lcmp st))) \<and>
   (set F' = set F \<and> set G' = set G \<longrightarrow>
      set (usersWhoDontFollowBack
             \<lparr>followingNames = map (\<lambda>a. Some (JString a)) G',
              followersNames = map (\<lambda>a. Some (JString a)) F', paragraphs = ps\<rparr>) =
      set (usersWhoDontFollowBack
             \<lparr>followingNames = map (\<lambda>a. Some (JString a)) G,
              followersNames = map (\<lambda>a. Some (JString a)) F, paragraphs = ps\<rparr>))"
proof -
  have a: "set (nonFollowers (calculateNonFollowers lcmp s)) =
             {u \<in> set (following s). u \<notin> set (followers s)}" for s
    by (auto simp: calculateNonFollowers_def sortNonFollowers_def set_array_sort)
  have b: "set (nonFollowers (calculateNonFollowers_p0 lcmp s)) =
             {u \<in> set (following s). u \<notin> set (followers s)}" for s
    by (auto simp: calculateNonFollowers_p0_def set_array_sort)
  have c: "usersWhoDontFollowBack
     \<lparr>followingNames = map (\<lambda>a. Some (JString a)) G0,
      followersNames = map (\<lambda>a. Some (JString a)) F0, paragraphs = ps\<rparr> =
     map (\<lambda>a. Some (JString a)) (filter (\<lambda>u. u \<notin> set F0) G0)" for F0 G0
    by (rule usersWhoDontFollowBack_strings)
  have d: "set (map (\<lambda>a. Some (JString a)) (filter (\<lambda>u. u \<notin> set F') G')) =
           set (map (\<lambda>a. Some (JString a)) (filter (\<lambda>u. u \<notin> set F) G))"
    if "set F' = set F \<and> set G' = set G"
    using that by simp
  have e: "set (nonFollowers (calculateNonFollowers lcmp st')) =
        set (nonFollowers (calculateNonFollowers lcmp st)) \<and>
      set (nonFollowers (calculateNonFollowers_p0 lcmp st')) =
        set (nonFollowers (calculateNonFollowers_p0 lcmp st))"
    if "set (followers st') = set (followers st) \<and> set (following st') = set (following st)"
    using that by (simp add: a b)
  have f: "set (usersWhoDontFollowBack
             \<lparr>followingNames = map (\<lambda>a. Some (JString a)) G',
              followersNames = map (\<lambda>a. Some (JString a)) F', paragraphs = ps\<rparr>) =
      set (usersWhoDontFollowBack
             \<lparr>followingNames = map (\<lambda>a. Some (JString a)) G,
              followersNames = map (\<lambda>a. Some (JString a)) F, paragraphs = ps\<rparr>)"
    if "set F' = set F \<and> set G' = set G"
    using d [OF that] by (simp only: c)
  show ?thesis
    using a [of st] b [of st] c [of G F] e f by blast
qed

theorem C1_non_followers_set_witness:
  "set (nonFollowers (calculateNonFollowers codeUnitCompare
         (initial_state\<lparr>followers := [''y'', ''x''], following := [''z'', ''x'', ''y'', ''a'']\<rparr>))) =
     {''a'', ''z''} \<and>
   set (nonFollowers (calculateNonFollowers codeUnitCompare
         (initial_state\<lparr>followers := [''x'', ''y''], following := [''a'', ''y'', ''z'', ''x'']\<rparr>))) =
   set (nonFollowers (calculateNonFollowers codeUnitCompare
         (initial_state\<lparr>followers := [''y'', ''x''], following := [''z'', ''x'', ''y'', ''a'']\<rparr>))) \<and>
   nonFollowers (calculateNonFollowers codeUnitCompare
         (initial_state\<lparr>followers := [''x'', ''y''], following := [''a'', ''y'', ''z'', ''x'']\<rparr>)) =
     [''a'', ''z'']"
proof -
  let ?st = "initial_state\<lparr>followers := [''y'', ''x''], following := [''z'', ''x'', ''y'', ''a'']\<rparr>"
  let ?st' = "initial_state\<lparr>followers := [''x'', ''y''], following := [''a'', ''y'', ''z'', ''x'']\<rparr>"
  have same: "set (followers ?st') = set (followers ?st) \<and> set (following ?st') = set (following ?st)"
    by (auto simp: initial_state_def)
  have "set (nonFollowers (calculateNonFollowers codeUnitCompare ?st)) =
          {u \<in> set (following ?st). u \<notin> set (followers ?st)}"
    by (rule C1_non_followers_set [where lcmp = codeUnitCompare and st = ?st, THEN conjunct1])
  moreover have "{u \<in> set (following ?st). u \<notin> set (followers ?st)} = {''a'', ''z''}"
    by (auto simp: initial_state_def)
  moreover have "set (nonFollowers (calculateNonFollowers codeUnitCompare ?st')) =
                 set (nonFollowers (calculateNonFollowers codeUnitCompare ?st))"
    by (rule C1_non_followers_set [where lcmp = codeUnitCompare and st = ?st and st' = ?st',
          THEN conjunct2, THEN conjunct2, THEN conjunct2, THEN conjunct1, THEN mp, OF same,
          THEN conjunct1])
  moreover have "nonFollowers (calculateNonFollowers codeUnitCompare ?st') = [''a'', ''z'']"
    by code_simp
  ultimately show ?thesis by simp
qed

section \<open>A file that is not JSON\<close>

text \<open>
  C2. When the text of the uploaded file is not valid JSON (\<^verbatim>\<open>JSON.parse\<close> throws),
  \<^verbatim>\<open>handleFileUpload\<close> reports the error \<^verbatim>\<open>Invalid JSON: ...\<close> for that file and leaves
  both sets, and the computed list, as they were.
\<close>

theorem C2_invalid_json_keeps_sets:
  assumes "target_file ev = Some f" and "file_content f = ReadText t" and "parse t = Inl msg"
  shows "followers (handleFileUpload parse lcmp toLowerCase trim ev st) = followers st \<and>
         following (handleFileUpload parse lcmp toLowerCase trim ev st) = following st \<and>
         nonFollowers (handleFileUpload parse lcmp toLowerCase trim ev st) = nonFollowers st \<and>
         errorsShown (handleFileUpload parse lcmp toLowerCase trim ev st) =
           errorsShown st @ [(upload_type ev, file_name f, Error (''Invalid JSON: '' @ msg))]"
  using assms
  by (simp add: handleFileUpload_def parseJsonFile_def upload_failed_def Let_def)

theorem C2_invalid_json_keeps_sets_witness:
  "followers (handleFileUpload (\<lambda>t. if t = ''[]'' then Inr (JArray []) else Inl ''Unexpected token n'')
       codeUnitCompare asciiLowerCase asciiTrim
       \<lparr>target_id = ''followersFile'',
        target_file = Some \<lparr>file_name = ''followers_1.json'', file_content = ReadText ''{not json''\<rparr>\<rparr>
       (initial_state\<lparr>followers := [''x'', ''y''], followersFileLoaded := True\<rparr>)) = [''x'', ''y''] \<and>
   errorsShown (handleFileUpload (\<lambda>t. if t = ''[]'' then Inr (JArray []) else Inl ''Unexpected token n'')
       codeUnitCompare asciiLowerCase asciiTrim
       \<lparr>target_id = ''followersFile'',
        target_file = Some \<lparr>file_name = ''followers_1.json'', file_content = ReadText ''{not json''\<rparr>\<rparr>
       (initial_state\<lparr>followers := [''x'', ''y''], followersFileLoaded := True\<rparr>)) =
     [(''followers'', ''followers_1.json'', Error ''Invalid JSON: Unexpected token n'')]"
proof -
  let ?parse = "\<lambda>t. if t = ''[]'' then Inr (JArray []) else (Inl ''Unexpected token n'' :: string + json)"
  let ?f = "\<lparr>file_name = ''followers_1.json'', file_content = ReadText ''{not json''\<rparr>"
  let ?ev = "\<lparr>target_id = ''followersFile'', target_file = Some ?f\<rparr>"
  let ?st = "initial_state\<lparr>followers := [''x'', ''y''], followersFileLoaded := True\<rparr>"
  have p: "?parse ''{not json'' = Inl ''Unexpected token n''" by simp
  have t: "upload_type ?ev = ''followers''" by (simp add: upload_type_def)
  show ?thesis
    using C2_invalid_json_keeps_sets [of ?ev ?f "''{not json''" ?parse "''Unexpected token n''"
        codeUnitCompare asciiLowerCase asciiTrim ?st] p t
    by (simp add: initial_state_def)
qed

section \<open>Records without the field\<close>
















section \<open>Stored names\<close>

lemma add_entry_cases:
  "add_entry toLowerCase e s = (s', r) \<Longrightarrow>
   s' = s \<or> (\<exists>str. str \<noteq> [] \<and> s' = set_add (toLowerCase str) s)"
  by (cases "opt_prop e ''value''")
     (auto simp: add_entry_def Let_def split: json.splits if_splits)

lemma add_entry_distinct:
  "add_entry toLowerCase e s = (s', r) \<Longrightarrow> distinct s \<Longrightarrow> distinct s'"
  using add_entry_cases [of toLowerCase e s s' r] by auto

lemma add_item_distinct:
  "add_item toLowerCase item s = (s', r) \<Longrightarrow> distinct s \<Longrightarrow> distinct s'"
proof -
  assume a: "add_item toLowerCase item s = (s', r)" and ok: "distinct s"
  have entries: "distinct s'" if "forEach (add_entry toLowerCase) es s = (s', r)" for es
    using ok that
    by (rule forEach_preserves [where f = "add_entry toLowerCase" and P = distinct, rotated])
       (rule add_entry_distinct)
  show ?thesis
    using a ok entries
    by (cases "opt_prop item ''string_list_data''") (auto simp: add_item_def split: json.splits)
qed

lemma add_items_distinct:
  "forEach (add_item toLowerCase) items s = (s', r) \<Longrightarrow> distinct s \<Longrightarrow> distinct s'"
proof -
  assume a: "forEach (add_item toLowerCase) items s = (s', r)" and ok: "distinct s"
  show ?thesis
    using ok a
    by (rule forEach_preserves [where f = "add_item toLowerCase" and P = distinct, rotated])
       (rule add_item_distinct)
qed

lemma add_entry_stored_ok:
  assumes "\<forall>s. s \<noteq> [] \<longrightarrow> toLowerCase s \<noteq> []"
  shows "add_entry toLowerCase e s = (s', r) \<Longrightarrow> stored_ok s \<Longrightarrow> stored_ok s'"
proof -
  assume a: "add_entry toLowerCase e s = (s', r)" and ok: "stored_ok s"
  from add_entry_cases [OF a] show ?thesis
  proof
    assume "s' = s"
    with ok show ?thesis by simp
  next
    assume "\<exists>str. str \<noteq> [] \<and> s' = set_add (toLowerCase str) s"
    then obtain str where "str \<noteq> []" and s': "s' = set_add (toLowerCase str) s" by blast
    then have "toLowerCase str \<noteq> []" using assms by simp
    with ok s' show ?thesis by (auto simp: stored_ok_def)
  qed
qed

lemma add_item_stored_ok:
  assumes "\<forall>s. s \<noteq> [] \<longrightarrow> toLowerCase s \<noteq> []"
  shows "add_item toLowerCase item s = (s', r) \<Longrightarrow> stored_ok s \<Longrightarrow> stored_ok s'"
proof -
  assume a: "add_item toLowerCase item s = (s', r)" and ok: "stored_ok s"
  have entries: "stored_ok s'" if "forEach (add_entry toLowerCase) es s = (s', r)" for es
    using ok that
    by (rule forEach_preserves [where f = "add_entry toLowerCase" and P = stored_ok, rotated])
       (rule add_entry_stored_ok [OF assms])
  show ?thesis
    using a ok entries
    by (cases "opt_prop item ''string_list_data''") (auto simp: add_item_def split: json.splits)
qed

lemma add_items_stored_ok:
  assumes "\<forall>s. s \<noteq> [] \<longrightarrow> toLowerCase s \<noteq> []"
  shows "forEach (add_item toLowerCase) items s = (s', r) \<Longrightarrow> stored_ok s \<Longrightarrow> stored_ok s'"
proof -
  assume a: "forEach (add_item toLowerCase) items s = (s', r)" and ok: "stored_ok s"
  show ?thesis
    using ok a
    by (rule forEach_preserves [where f = "add_item toLowerCase" and P = stored_ok, rotated])
       (rule add_item_stored_ok [OF assms])
qed

lemma stored_ok_Nil: "stored_ok []"
  by (simp add: stored_ok_def)

lemma followers_batch_stored_ok:
  assumes "\<forall>s. s \<noteq> [] \<longrightarrow> toLowerCase s \<noteq> []"
  shows "stored_ok (followers (fst (processFollowerDataBatch toLowerCase dataArray st)))"
  using add_items_stored_ok [OF assms, of dataArray "[]", OF _ stored_ok_Nil]
  by (cases "forEach (add_item toLowerCase) dataArray []") (simp add: processFollowerDataBatch_def)

lemma following_batch_stored_ok:
  assumes "\<forall>s. s \<noteq> [] \<longrightarrow> toLowerCase s \<noteq> []"
  shows "stored_ok (following (fst (processFollowingDataBatch toLowerCase dataArray st)))"
  using add_items_stored_ok [OF assms, of dataArray "[]", OF _ stored_ok_Nil]
  by (cases "forEach (add_item toLowerCase) dataArray []") (simp add: processFollowingDataBatch_def)

lemma followers_batch_distinct:
  "distinct (followers (fst (processFollowerDataBatch toLowerCase dataArray st)))"
  using add_items_distinct [of toLowerCase dataArray "[]"]
  by (cases "forEach (add_item toLowerCase) dataArray []") (simp add: processFollowerDataBatch_def)

lemma following_batch_distinct:
  "distinct (following (fst (processFollowingDataBatch toLowerCase dataArray st)))"
  using add_items_distinct [of toLowerCase dataArray "[]"]
  by (cases "forEach (add_item toLowerCase) dataArray []") (simp add: processFollowingDataBatch_def)

lemma followers_batch_adds:
  "set (followers (fst (processFollowerDataBatch toLowerCase dataArray st))) \<subseteq>
     toLowerCase ` set (file_values dataArray)"
  using add_items_adds [of toLowerCase dataArray "[]"]
  by (cases "forEach (add_item toLowerCase) dataArray []") (simp add: processFollowerDataBatch_def)

lemma following_batch_adds:
  "set (following (fst (processFollowingDataBatch toLowerCase dataArray st))) \<subseteq>
     toLowerCase ` set (file_values dataArray)"
  using add_items_adds [of toLowerCase dataArray "[]"]
  by (cases "forEach (add_item toLowerCase) dataArray []") (simp add: processFollowingDataBatch_def)

lemma followers_batch_None:
  "snd (processFollowerDataBatch toLowerCase dataArray st) = None \<Longrightarrow>
   followers (fst (processFollowerDataBatch toLowerCase dataArray st)) =
     add_all (map toLowerCase (file_values dataArray)) []"
  by (cases "forEach (add_item toLowerCase) dataArray []")
     (auto simp: processFollowerDataBatch_def dest: add_items_None)

lemma following_batch_None:
  "snd (processFollowingDataBatch toLowerCase dataArray st) = None \<Longrightarrow>
   following (fst (processFollowingDataBatch toLowerCase dataArray st)) =
     add_all (map toLowerCase (file_values dataArray)) []"
  by (cases "forEach (add_item toLowerCase) dataArray []")
     (auto simp: processFollowingDataBatch_def dest: add_items_None)

text \<open>
  C4 (amended). In the Set-based analyzer every name goes through the platform's
  \<^verbatim>\<open>toLowerCase\<close> before it is added, whatever that function does to the letters of the
  name: after an import of either file, whatever the file holds and whether or not the
  import throws, the set has no name twice and every stored name is the lower-case form of a
  name of the file; when the import does not throw, the set is exactly the lower-case forms
  of the names of the file. So two values that differ only in letter case, that is, that
  have the same lower-case form, are stored once, as that form. \<^verbatim>\<open>main.js\<close> pushes the
  values as they are and keeps both spellings.
\<close>

theorem C4_names_are_stored_in_lower_case:
  "distinct (followers (fst (processFollowerDataBatch toLowerCase dataArray st))) \<and>
   set (followers (fst (processFollowerDataBatch toLowerCase dataArray st))) \<subseteq>
     toLowerCase ` set (file_values dataArray) \<and>
   (snd (processFollowerDataBatch toLowerCase dataArray st) = None \<longrightarrow>
      set (followers (fst (processFollowerDataBatch toLowerCase dataArray st))) =
        toLowerCase ` set (file_values dataArray)) \<and>
   distinct (following (fst (processFollowingDataBatch toLowerCase dataArray st))) \<and>
   set (following (fst (processFollowingDataBatch toLowerCase dataArray st))) \<subseteq>
     toLowerCase ` set (file_values dataArray) \<and>
   (snd (processFollowingDataBatch toLowerCase dataArray st) = None \<longrightarrow>
      set (following (fst (processFollowingDataBatch toLowerCase dataArray st))) =
        toLowerCase ` set (file_values dataArray)) \<and>
   (a \<noteq> [] \<and> toLowerCase a = toLowerCase b \<longrightarrow>
      processFollowerDataBatch toLowerCase
        [JObject [(''string_list_data'',
                   JArray [JObject [(''value'', JString a)], JObject [(''value'', JString b)]])]] st =
        (st\<lparr>followers := [toLowerCase a]\<rparr>, None) \<and>
      processFollowingDataBatch toLowerCase
        [JObject [(''string_list_data'',
                   JArray [JObject [(''value'', JString a)], JObject [(''value'', JString b)]])]] st =
        (st\<lparr>following := [toLowerCase a]\<rparr>, None)) \<and>
   forEach push_item
     [JObject [(''string_list_data'',
                JArray [JObject [(''value'', JString a)], JObject [(''value'', JString b)]])]] names =
     (names @ [Some (JString a), Some (JString b)], None)"
proof -
  have 1: "distinct (followers (fst (processFollowerDataBatch toLowerCase dataArray st)))"
    by (rule followers_batch_distinct)
  have 2: "distinct (following (fst (processFollowingDataBatch toLowerCase dataArray st)))"
    by (rule following_batch_distinct)
  have 3: "snd (processFollowerDataBatch toLowerCase dataArray st) = None \<longrightarrow>
      set (followers (fst (processFollowerDataBatch toLowerCase dataArray st))) =
        toLowerCase ` set (file_values dataArray)"
    by (auto simp: followers_batch_None)
  have 4: "snd (processFollowingDataBatch toLowerCase dataArray st) = None \<longrightarrow>
      set (following (fst (processFollowingDataBatch toLowerCase dataArray st))) =
        toLowerCase ` set (file_values dataArray)"
    by (auto simp: following_batch_None)
  have 5: "a \<noteq> [] \<and> toLowerCase a = toLowerCase b \<longrightarrow>
      processFollowerDataBatch toLowerCase
        [JObject [(''string_list_data'',
                   JArray [JObject [(''value'', JString a)], JObject [(''value'', JString b)]])]] st =
        (st\<lparr>followers := [toLowerCase a]\<rparr>, None) \<and>
      processFollowingDataBatch toLowerCase
        [JObject [(''string_list_data'',
                   JArray [JObject [(''value'', JString a)], JObject [(''value'', JString b)]])]] st =
        (st\<lparr>following := [toLowerCase a]\<rparr>, None)"
    by (auto simp: processFollowerDataBatch_def processFollowingDataBatch_def add_item_def
        add_entry_def opt_prop_def set_add_def Let_def)
  have 6: "forEach push_item
     [JObject [(''string_list_data'',
                JArray [JObject [(''value'', JString a)], JObject [(''value'', JString b)]])]] names =
     (names @ [Some (JString a), Some (JString b)], None)"
    by (simp add: push_item_def push_value_def)
  have 7: "set (followers (fst (processFollowerDataBatch toLowerCase dataArray st))) \<subseteq>
     toLowerCase ` set (file_values dataArray)"
    by (rule followers_batch_adds)
  have 8: "set (following (fst (processFollowingDataBatch toLowerCase dataArray st))) \<subseteq>
     toLowerCase ` set (file_values dataArray)"
    by (rule following_batch_adds)
  show ?thesis
    using 1 2 3 4 5 6 7 8 by blast
qed

theorem C4_names_are_stored_in_lower_case_witness:
  "processFollowerDataBatch asciiLowerCase
     [JObject [(''string_list_data'',
                JArray [JObject [(''value'', JString ''Alice'')], JObject [(''value'', JString ''alice'')]])]]
     initial_state =
   (initial_state\<lparr>followers := [''alice'']\<rparr>, None) \<and>
   processFollowingDataBatch asciiLowerCase
     [JObject [(''string_list_data'',
                JArray [JObject [(''value'', JString ''Alice'')], JObject [(''value'', JString ''alice'')]])]]
     initial_state =
   (initial_state\<lparr>following := [''alice'']\<rparr>, None)"
proof -
  have l: "asciiLowerCase ''Alice'' = ''alice''" "asciiLowerCase ''alice'' = ''alice''"
    by code_simp+
  show ?thesis
    using C4_names_are_stored_in_lower_case [where toLowerCase = asciiLowerCase
        and dataArray = "[]" and st = initial_state and a = "''Alice''" and b = "''alice''"
        and names = "[]"] l
    by simp
qed

text \<open>
  C4 as stated fails in \<^verbatim>\<open>main.js\<close>: \<^verbatim>\<open>fetchAndProcessJSON\<close> stores \<^verbatim>\<open>Alice\<close> and
  \<^verbatim>\<open>alice\<close> as two names.
\<close>

theorem C4_main_js_keeps_both_spellings:
  "followersNames
     (fetchAndProcessJSON
        (Body (JArray
          [JObject [(''string_list_data'',
                     JArray [JObject [(''value'', JString ''Alice'')],
                             JObject [(''value'', JString ''alice'')]])]]))
        FollowersNames
        \<lparr>followingNames = [], followersNames = [], paragraphs = []\<rparr>) =
   [Some (JString ''Alice''), Some (JString ''alice'')] \<and>
   length (followersNames
     (fetchAndProcessJSON
        (Body (JArray
          [JObject [(''string_list_data'',
                     JArray [JObject [(''value'', JString ''Alice'')],
                             JObject [(''value'', JString ''alice'')]])]]))
        FollowersNames
        \<lparr>followingNames = [], followersNames = [], paragraphs = []\<rparr>)) = 2"
  by (simp add: fetchAndProcessJSON_def names_of_def set_names_def push_item_def push_value_def
      getUsersWhoDonotFollowBack_def usersWhoDontFollowBack_def)

lemma sortNonFollowers_sets [simp]:
  "followers (sortNonFollowers lcmp st) = followers st"
  "following (sortNonFollowers lcmp st) = following st"
  by (simp_all add: sortNonFollowers_def)

lemma calculateNonFollowers_sets [simp]:
  "followers (calculateNonFollowers lcmp st) = followers st"
  "following (calculateNonFollowers lcmp st) = following st"
  by (simp_all add: calculateNonFollowers_def)

lemma renderResults_sets [simp]:
  "followers (renderResults toLowerCase trim st) = followers st"
  "following (renderResults toLowerCase trim st) = following st"
  "nonFollowers (renderResults toLowerCase trim st) = nonFollowers st"
  by (simp_all add: renderResults_def Let_def)

lemma processLoadedData_sets [simp]:
  "followers (processLoadedData lcmp toLowerCase trim st) = followers st"
  "following (processLoadedData lcmp toLowerCase trim st) = following st"
  by (simp_all add: processLoadedData_def Let_def)

lemma checkAllDataReady_sets [simp]:
  "followers (checkAllDataReady lcmp toLowerCase trim st) = followers st"
  "following (checkAllDataReady lcmp toLowerCase trim st) = following st"
  by (simp_all add: checkAllDataReady_def)

lemma upload_failed_sets [simp]:
  "followers (upload_failed type f err st) = followers st"
  "following (upload_failed type f err st) = following st"
  by (simp_all add: upload_failed_def Let_def)

lemma followers_batch_other [simp]:
  "following (fst (processFollowerDataBatch toLowerCase dataArray st)) = following st"
  by (cases "forEach (add_item toLowerCase) dataArray []") (simp add: processFollowerDataBatch_def)

lemma following_batch_other [simp]:
  "followers (fst (processFollowingDataBatch toLowerCase dataArray st)) = followers st"
  by (cases "forEach (add_item toLowerCase) dataArray []") (simp add: processFollowingDataBatch_def)

lemma handleFileUpload_sets_ok:
  assumes "sets_ok st" and lower: "\<forall>s. s \<noteq> [] \<longrightarrow> toLowerCase s \<noteq> []"
  shows "sets_ok (handleFileUpload parse lcmp toLowerCase trim ev st)"
proof (cases "target_file ev")
  case None
  with assms show ?thesis by (simp add: handleFileUpload_def)
next
  case (Some f)
  show ?thesis
  proof (cases "parseJsonFile parse f")
    case (Inl err)
    with Some assms show ?thesis by (simp add: handleFileUpload_def sets_ok_def)
  next
    case (Inr data)
    show ?thesis
    proof (cases "extractDataArray data")
      case (Inl err)
      with Some Inr assms show ?thesis by (simp add: handleFileUpload_def sets_ok_def)
    next
      case inr: (Inr dataArray)
      show ?thesis
      proof (cases "upload_type ev = ''followers''")
        case True
        let ?st0 = "st\<lparr>followers := [], uploadedFollowersData := Some dataArray\<rparr>"
        obtain st1 e where b: "processFollowerDataBatch toLowerCase dataArray ?st0 = (st1, e)"
          by (cases "processFollowerDataBatch toLowerCase dataArray ?st0")
        have "stored_ok (followers st1)"
          using followers_batch_stored_ok [OF lower, of dataArray ?st0] b by simp
        moreover have "following st1 = following st"
          using followers_batch_other [of toLowerCase dataArray ?st0] b by simp
        ultimately have ok: "sets_ok st1"
          using assms(1) by (simp add: sets_ok_def stored_ok_def)
        show ?thesis
          using Some Inr inr True b ok
          by (cases e) (simp_all add: handleFileUpload_def sets_ok_def)
      next
        case False
        let ?st0 = "st\<lparr>following := [], uploadedFollowingData := Some dataArray\<rparr>"
        obtain st1 e where b: "processFollowingDataBatch toLowerCase dataArray ?st0 = (st1, e)"
          by (cases "processFollowingDataBatch toLowerCase dataArray ?st0")
        have "stored_ok (following st1)"
          using following_batch_stored_ok [OF lower, of dataArray ?st0] b by simp
        moreover have "followers st1 = followers st"
          using following_batch_other [of toLowerCase dataArray ?st0] b by simp
        ultimately have ok: "sets_ok st1"
          using assms(1) by (simp add: sets_ok_def stored_ok_def)
        show ?thesis
          using Some Inr inr False b ok
          by (cases e) (simp_all add: handleFileUpload_def sets_ok_def)
      qed
    qed
  qed
qed

lemma asciiLowerCase_Nil_iff [simp]: "(asciiLowerCase s = []) = (s = [])"
  by (simp add: asciiLowerCase_def)

lemma uploads_sets_ok:
  assumes "sets_ok st" and "\<forall>s. s \<noteq> [] \<longrightarrow> toLowerCase s \<noteq> []"
  shows "sets_ok (uploads parse lcmp toLowerCase trim evs st)"
  using assms unfolding uploads_def
  by (induction evs arbitrary: st) (simp_all add: handleFileUpload_sets_ok)

text \<open>
  C9 (amended). In the Set-based analyzer, after every sequence of uploads on either side
  (valid files, files that are not JSON, files whose import throws half way), the followers
  set and the following set hold no name twice and no empty name. A stored name is a string,
  so it is never \<^verbatim>\<open>undefined\<close>. This holds with \<open>asciiLowerCase\<close>, and with every
  \<^verbatim>\<open>toLowerCase\<close> that gives no empty lower-case form to a name that is not empty, as the
  platform's does.
\<close>

theorem C9_sets_hold_no_duplicate_and_no_empty_name:
  assumes "sets_ok st"
  shows "sets_ok (uploads parse lcmp asciiLowerCase trim evs st) \<and>
         ((\<forall>s. s \<noteq> [] \<longrightarrow> toLowerCase s \<noteq> []) \<longrightarrow>
            sets_ok (uploads parse lcmp toLowerCase trim evs st))"
proof -
  have "\<forall>s. s \<noteq> [] \<longrightarrow> asciiLowerCase s \<noteq> []"
    by simp
  then have "sets_ok (uploads parse lcmp asciiLowerCase trim evs st)"
    by (rule uploads_sets_ok [OF assms])
  then show ?thesis
    using uploads_sets_ok [OF assms] by blast
qed

theorem C9_sets_hold_no_duplicate_and_no_empty_name_witness:
  "sets_ok
     (uploads
        (\<lambda>t. if t = ''followers text''
             then Inr (JArray
               [JObject [(''string_list_data'', JArray [JObject [(''value'', JString ''Bob'')]])],
                JObject [(''string_list_data'', JArray [JObject [(''value'', JString ''bob'')],
                                                         JObject [(''value'', JString [])]])]])
             else Inl ''Unexpected token'')
        codeUnitCompare asciiLowerCase asciiTrim
        [\<lparr>target_id = ''followersFile'',
          target_file = Some \<lparr>file_name = ''a.json'', file_content = ReadText ''followers text''\<rparr>\<rparr>,
         \<lparr>target_id = ''followingFile'',
          target_file = Some \<lparr>file_name = ''b.json'', file_content = ReadText ''{not json''\<rparr>\<rparr>]
        initial_state) \<and>
   followers
     (uploads
        (\<lambda>t. if t = ''followers text''
             then Inr (JArray
               [JObject [(''string_list_data'', JArray [JObject [(''value'', JString ''Bob'')]])],
                JObject [(''string_list_data'', JArray [JObject [(''value'', JString ''bob'')],
                                                         JObject [(''value'', JString [])]])]])
             else Inl ''Unexpected token'')
        codeUnitCompare asciiLowerCase asciiTrim
        [\<lparr>target_id = ''followersFile'',
          target_file = Some \<lparr>file_name = ''a.json'', file_content = ReadText ''followers text''\<rparr>\<rparr>,
         \<lparr>target_id = ''followingFile'',
          target_file = Some \<lparr>file_name = ''b.json'', file_content = ReadText ''{not json''\<rparr>\<rparr>]
        initial_state) = [''bob'']"
proof -
  have i: "sets_ok initial_state"
    by (simp add: sets_ok_def initial_state_def)
  have "followers
     (uploads
        (\<lambda>t. if t = ''followers text''
             then Inr (JArray
               [JObject [(''string_list_data'', JArray [JObject [(''value'', JString ''Bob'')]])],
                JObject [(''string_list_data'', JArray [JObject [(''value'', JString ''bob'')],
                                                         JObject [(''value'', JString [])]])]])
             else Inl ''Unexpected token'')
        codeUnitCompare asciiLowerCase asciiTrim
        [\<lparr>target_id = ''followersFile'',
          target_file = Some \<lparr>file_name = ''a.json'', file_content = ReadText ''followers text''\<rparr>\<rparr>,
         \<lparr>target_id = ''followingFile'',
          target_file = Some \<lparr>file_name = ''b.json'', file_content = ReadText ''{not json''\<rparr>\<rparr>]
        initial_state) = [''bob'']"
    by code_simp
  then show ?thesis
    using C9_sets_hold_no_duplicate_and_no_empty_name [OF i, where trim = asciiTrim] by blast
qed

text \<open>
  C9 as stated fails in \<^verbatim>\<open>main.js\<close>: its arrays keep a name that occurs twice twice, and
  keep \<^verbatim>\<open>undefined\<close> for an entry without \<^verbatim>\<open>value\<close>.
\<close>

theorem C9_main_js_keeps_duplicates_and_undefined:
  "followersNames
     (fetchAndProcessJSON
        (Body (JArray
          [JObject [(''string_list_data'',
                     JArray [JObject [(''value'', JString ''a'')],
                             JObject [(''value'', JString ''a'')],
                             JObject [(''href'', JString ''h'')]])]]))
        FollowersNames
        \<lparr>followingNames = [], followersNames = [], paragraphs = []\<rparr>) =
   [Some (JString ''a''), Some (JString ''a''), None] \<and>
   \<not> distinct (followersNames
     (fetchAndProcessJSON
        (Body (JArray
          [JObject [(''string_list_data'',
                     JArray [JObject [(''value'', JString ''a'')],
                             JObject [(''value'', JString ''a'')],
                             JObject [(''href'', JString ''h'')]])]]))
        FollowersNames
        \<lparr>followingNames = [], followersNames = [], paragraphs = []\<rparr>))"
  by (simp add: fetchAndProcessJSON_def names_of_def set_names_def push_item_def push_value_def
      getUsersWhoDonotFollowBack_def usersWhoDontFollowBack_def)

section \<open>Finding the array of records\<close>

lemma isArray_iff: "isArray v = (\<exists>xs. v = Some (JArray xs))"
  by (cases v rule: isArray.cases) auto

lemma first_array_key_find:
  "first_array_key (JObject kvs) ks =
     (case List.find (\<lambda>k. isArray (map_of kvs k)) ks of
        None \<Rightarrow> None
      | Some k \<Rightarrow> (case map_of kvs k of Some (JArray xs) \<Rightarrow> Some xs | _ \<Rightarrow> None))"
proof (induction ks)
  case Nil
  then show ?case by simp
next
  case (Cons k ks)
  show ?case
  proof (cases "isArray (map_of kvs k)")
    case True
    then obtain xs where "map_of kvs k = Some (JArray xs)" by (auto simp: isArray_iff)
    then show ?thesis by simp
  next
    case False
    then have "first_array_key (JObject kvs) (k # ks) = first_array_key (JObject kvs) ks"
      by (cases "map_of kvs k" rule: isArray.cases) auto
    with False Cons show ?thesis by simp
  qed
qed

lemma extractDataArray_error: "extractDataArray v = Inl e \<Longrightarrow> e = Error not_recognized"
  by (cases v rule: extractDataArray.cases)
     (auto simp: object_keys_def split: option.splits list.splits json.splits if_splits)

text \<open>
  C5 (amended). \<^verbatim>\<open>extractDataArray\<close> of the second analyzer: (1) an array is returned as it
  is; (2) otherwise, for an object, the first of the four known wrapper keys, in their fixed
  order, whose value is an array gives the result; (3) otherwise the value of the object's
  first own property, when that key is not the empty string and the value is an array;
  (4) when no known key and not the first property holds an array, and for every value that
  is neither array nor object, it throws an Error, always with the same fixed message. The
  first analyzer has no list of known keys: an array is returned as it is, and for an object
  the first own property alone decides.
\<close>

theorem C5_extraction_order:
  "extractDataArray (JArray xs) = Inr xs \<and>
   (List.find (\<lambda>key. isArray (map_of kvs key)) potentialKeys = Some k \<and>
    map_of kvs k = Some (JArray xs) \<longrightarrow>
      extractDataArray (JObject kvs) = Inr xs) \<and>
   (List.find (\<lambda>key. isArray (map_of kvs key)) potentialKeys = None \<and>
    kvs = (k, JArray xs) # rest \<and> k \<noteq> [] \<longrightarrow>
      extractDataArray (JObject kvs) = Inr xs) \<and>
   (List.find (\<lambda>key. isArray (map_of kvs key)) potentialKeys = None \<and>
    \<not> isArray (first_property_value kvs) \<longrightarrow>
      extractDataArray (JObject kvs) = Inl (Error not_recognized)) \<and>
   extractDataArray JNull = Inl (Error not_recognized) \<and>
   extractDataArray (JBool b) = Inl (Error not_recognized) \<and>
   extractDataArray (JNumber n) = Inl (Error not_recognized) \<and>
   extractDataArray (JString s) = Inl (Error not_recognized) \<and>
   (extractDataArray v = Inl e \<longrightarrow> e = Error not_recognized) \<and>
   dataArray_p0 msg (JArray xs) = Inr xs \<and>
   dataArray_p0 msg (JObject ((k, JArray xs) # rest)) = Inr xs \<and>
   (\<not> isArray (first_property_value kvs) \<longrightarrow>
      dataArray_p0 msg (JObject kvs) = Inl (Error msg))"
proof -
  have 2: "extractDataArray (JObject kvs) = Inr xs"
    if "List.find (\<lambda>key. isArray (map_of kvs key)) potentialKeys = Some k"
      and "map_of kvs k = Some (JArray xs)"
    using that by (simp add: first_array_key_find)
  have 3: "extractDataArray (JObject kvs) = Inr xs"
    if "List.find (\<lambda>key. isArray (map_of kvs key)) potentialKeys = None"
      and "kvs = (k, JArray xs) # rest" and "k \<noteq> []"
    using that by (simp add: first_array_key_find object_keys_def)
  have 4: "extractDataArray (JObject kvs) = Inl (Error not_recognized)"
    if "List.find (\<lambda>key. isArray (map_of kvs key)) potentialKeys = None"
      and "\<not> isArray (first_property_value kvs)"
  proof (cases kvs)
    case Nil
    with that show ?thesis by (simp add: first_array_key_find object_keys_def)
  next
    case (Cons p ps)
    obtain k0 v0 where p: "p = (k0, v0)" by (cases p)
    have "\<not> isArray (Some v0)" using that(2) Cons p by (simp add: first_property_value_def)
    then show ?thesis using that(1) Cons p
      by (cases v0) (simp_all add: first_array_key_find object_keys_def)
  qed
  have 6: "dataArray_p0 msg (JObject kvs) = Inl (Error msg)"
    if "\<not> isArray (first_property_value kvs)"
  proof (cases kvs)
    case Nil
    then show ?thesis by (simp add: object_keys_def)
  next
    case (Cons p ps)
    obtain k0 v0 where p: "p = (k0, v0)" by (cases p)
    have "\<not> isArray (Some v0)" using that Cons p by (simp add: first_property_value_def)
    then show ?thesis using Cons p
      by (cases v0) (simp_all add: object_keys_def)
  qed
  have 5: "extractDataArray v = Inl e \<longrightarrow> e = Error not_recognized"
    using extractDataArray_error by blast
  have 7: "dataArray_p0 msg (JObject ((k, JArray xs) # rest)) = Inr xs"
    by (simp add: object_keys_def)
  have 1: "extractDataArray (JArray xs) = Inr xs" "dataArray_p0 msg (JArray xs) = Inr xs"
    by simp_all
  have 8: "extractDataArray JNull = Inl (Error not_recognized)"
    "extractDataArray (JBool b) = Inl (Error not_recognized)"
    "extractDataArray (JNumber n) = Inl (Error not_recognized)"
    "extractDataArray (JString s) = Inl (Error not_recognized)"
    by simp_all
  show ?thesis
    using 1 2 3 4 5 6 7 8 by blast
qed

text \<open>
  C5 as stated fails: the message of the error is fixed and names \<^verbatim>\<open>relationships_followers\<close>
  as an example, not the keys that were tried; and the first analyzer does not look for a
  known wrapper key that is not the first property.
\<close>

theorem C5_error_names_one_example_key:
  "extractDataArray (JObject [(''items'', JNumber 1)]) = Inl (Error not_recognized) \<and>
   str_includes not_recognized ''relationships_followers'' \<and>
   \<not> str_includes not_recognized ''relationships_following'' \<and>
   \<not> str_includes not_recognized ''relationships_unfollowed_users'' \<and>
   \<not> str_includes not_recognized ''string_map_data'' \<and>
   \<not> str_includes not_recognized ''items'' \<and>
   dataArray_p0 not_an_array_upload
     (JObject [(''note'', JNumber 1), (''relationships_followers'', JArray [])]) =
     Inl (Error not_an_array_upload)"
  by code_simp

theorem C5_extraction_order_witness:
  "extractDataArray (JArray [JNull]) = Inr [JNull] \<and>
   extractDataArray
     (JObject [(''note'', JArray [JNull]),
               (''relationships_following'',
                JArray [JObject [(''string_list_data'', JArray [JObject [(''value'', JString ''bob'')]])]])]) =
     Inr [JObject [(''string_list_data'', JArray [JObject [(''value'', JString ''bob'')]])]] \<and>
   extractDataArray (JObject [(''users'', JArray [JNull]), (''n'', JNumber 1)]) = Inr [JNull] \<and>
   extractDataArray (JObject [(''n'', JNumber 1), (''users'', JArray [JNull])]) =
     Inl (Error not_recognized) \<and>
   dataArray_p0 not_an_array_upload (JObject [(''n'', JNumber 1), (''users'', JArray [JNull])]) =
     Inl (Error not_an_array_upload)"
proof -
  let ?bob = "[JObject [(''string_list_data'', JArray [JObject [(''value'', JString ''bob'')]])]]"
  let ?w = "[(''note'', JArray [JNull]), (''relationships_following'', JArray ?bob)]"
  let ?u = "[(''users'', JArray [JNull]), (''n'', JNumber 1)]"
  let ?n = "[(''n'', JNumber 1), (''users'', JArray [JNull])]"
  have a: "List.find (\<lambda>key. isArray (map_of ?w key)) potentialKeys = Some ''relationships_following''"
    by (simp add: potentialKeys_def)
  have b: "map_of ?w ''relationships_following'' = Some (JArray ?bob)"
    by simp
  have c: "List.find (\<lambda>key. isArray (map_of ?u key)) potentialKeys = None"
    by (simp add: potentialKeys_def)
  have d: "List.find (\<lambda>key. isArray (map_of ?n key)) potentialKeys = None"
    by (simp add: potentialKeys_def)
  have e: "\<not> isArray (first_property_value ?n)"
    by (simp add: first_property_value_def)
  have "extractDataArray (JArray [JNull]) = Inr [JNull]"
    using C5_extraction_order [of "[JNull]"] by blast
  moreover have "extractDataArray (JObject ?w) = Inr ?bob"
    using C5_extraction_order [of ?bob ?w "''relationships_following''"] a b by blast
  moreover have "extractDataArray (JObject ?u) = Inr [JNull]"
    using C5_extraction_order [of "[JNull]" ?u "''users''" "[(''n'', JNumber 1)]"] c by simp
  moreover have "extractDataArray (JObject ?n) = Inl (Error not_recognized)"
    using C5_extraction_order [of _ ?n] d e by blast
  moreover have "dataArray_p0 not_an_array_upload (JObject ?n) = Inl (Error not_an_array_upload)"
    using C5_extraction_order [of _ ?n] e by blast
  ultimately show ?thesis by blast
qed

section \<open>Searching the list\<close>

text \<open>\<open>str_includes s t\<close> says that \<open>t\<close> occurs in \<open>s\<close> as a contiguous piece.\<close>

lemma startsWith_iff: "startsWith s t = (\<exists>q. s = t @ q)"
  by (induction s t rule: startsWith.induct) auto

lemma str_includes_iff: "str_includes s t = (\<exists>p q. s = p @ t @ q)"
proof (induction s)
  case Nil
  then show ?case by auto
next
  case (Cons c cs)
  show ?case
  proof
    assume "str_includes (c # cs) t"
    then consider "startsWith (c # cs) t" | "str_includes cs t" by auto
    then show "\<exists>p q. c # cs = p @ t @ q"
    proof cases
      case 1
      then obtain q where "c # cs = t @ q" by (auto simp: startsWith_iff)
      then have "c # cs = [] @ t @ q" by simp
      then show ?thesis by blast
    next
      case 2
      then obtain p q where "cs = p @ t @ q" using Cons.IH by blast
      then have "c # cs = (c # p) @ t @ q" by simp
      then show ?thesis by blast
    qed
  next
    assume "\<exists>p q. c # cs = p @ t @ q"
    then obtain p q where e: "c # cs = p @ t @ q" by blast
    show "str_includes (c # cs) t"
    proof (cases p)
      case Nil
      with e have "startsWith (c # cs) t" by (auto simp: startsWith_iff)
      then show ?thesis by simp
    next
      case (Cons d p')
      with e have "cs = p' @ t @ q" by simp
      then have "str_includes cs t" using Cons.IH by blast
      then show ?thesis by simp
    qed
  qed
qed

lemma str_includes_Nil [simp]: "str_includes s []"
  by (cases s) simp_all

text \<open>
  C6 (amended). Second analyzer, when both files are loaded and no analysis is running: the
  text of the search box goes through the platform's \<^verbatim>\<open>toLowerCase\<close> and \<^verbatim>\<open>trim\<close>, and
  the list shown is exactly the names of \<^verbatim>\<open>nonFollowers\<close> whose lower-case form contains
  that term, in the order of \<^verbatim>\<open>nonFollowers\<close>; a term that is empty after trimming shows
  the whole list. When a file is not loaded (that is also so after an upload that failed)
  and no analysis is running, the list shown is empty whatever the text; while an analysis
  is running the list shown stays as it is. \<^verbatim>\<open>nonFollowers\<close> itself is never changed.
  First analyzer: the term is lower-cased and not trimmed, and the list shown is the matching
  names sorted again, by \<^verbatim>\<open>Array.prototype.sort\<close> with the comparator of the current sort
  flag (so in ascending or descending order of \<^verbatim>\<open>localeCompare\<close>, when that ties no two of
  the names); \<^verbatim>\<open>nonFollowers\<close> is not changed.
\<close>

theorem C6_search_shows_the_matching_names:
  "(followersFileLoaded st \<and> followingFileLoaded st \<and> \<not> isDataProcessing st \<longrightarrow>
      rendered (handleSearchInput toLowerCase trim s st) =
        filter (\<lambda>user. str_includes (toLowerCase user) (trim (toLowerCase s))) (nonFollowers st) \<and>
      (trim (toLowerCase s) = [] \<longrightarrow>
         rendered (handleSearchInput toLowerCase trim s st) = nonFollowers st)) \<and>
   ((\<not> followersFileLoaded st \<or> \<not> followingFileLoaded st) \<and> \<not> isDataProcessing st \<longrightarrow>
      rendered (handleSearchInput toLowerCase trim s st) = []) \<and>
   (isDataProcessing st \<longrightarrow> rendered (handleSearchInput toLowerCase trim s st) = rendered st) \<and>
   nonFollowers (handleSearchInput toLowerCase trim s st) = nonFollowers st \<and>
   rendered (renderResults_p0 lcmp toLowerCase (st\<lparr>searchInput := s\<rparr>)) =
     array_sort (\<lambda>a b. if sortAsc st then lcmp a b else lcmp b a)
       (filter (\<lambda>user. str_includes (toLowerCase user) (toLowerCase s)) (nonFollowers st)) \<and>
   mset (rendered (renderResults_p0 lcmp toLowerCase (st\<lparr>searchInput := s\<rparr>))) =
     mset (filter (\<lambda>user. str_includes (toLowerCase user) (toLowerCase s)) (nonFollowers st)) \<and>
   (linear_comparator_on (set (nonFollowers st)) lcmp \<and> distinct (nonFollowers st) \<longrightarrow>
      sorted_wrt (\<lambda>a b. if sortAsc st then lcmp a b < 0 else lcmp b a < 0)
        (rendered (renderResults_p0 lcmp toLowerCase (st\<lparr>searchInput := s\<rparr>)))) \<and>
   nonFollowers (renderResults_p0 lcmp toLowerCase (st\<lparr>searchInput := s\<rparr>)) = nonFollowers st"
proof -
  let ?shown = "rendered (handleSearchInput toLowerCase trim s st)"
  let ?p0 = "renderResults_p0 lcmp toLowerCase (st\<lparr>searchInput := s\<rparr>)"
  let ?match = "filter (\<lambda>user. str_includes (toLowerCase user) (toLowerCase s)) (nonFollowers st)"
  have 1: "?shown =
        filter (\<lambda>user. str_includes (toLowerCase user) (trim (toLowerCase s))) (nonFollowers st) \<and>
      (trim (toLowerCase s) = [] \<longrightarrow> ?shown = nonFollowers st)"
    if "followersFileLoaded st \<and> followingFileLoaded st \<and> \<not> isDataProcessing st"
    using that by (simp add: handleSearchInput_def renderResults_def Let_def str_includes_Nil)
  have 2: "?shown = []"
    if "(\<not> followersFileLoaded st \<or> \<not> followingFileLoaded st) \<and> \<not> isDataProcessing st"
    using that by (auto simp: handleSearchInput_def renderResults_def Let_def)
  have 3: "?shown = rendered st" if "isDataProcessing st"
    using that by (simp add: handleSearchInput_def renderResults_def Let_def)
  have 4: "nonFollowers (handleSearchInput toLowerCase trim s st) = nonFollowers st"
    by (simp add: handleSearchInput_def renderResults_def Let_def)
  have 5: "rendered ?p0 =
     array_sort (\<lambda>a b. if sortAsc st then lcmp a b else lcmp b a) ?match"
    by (simp add: renderResults_p0_def Let_def)
  have 6: "mset (rendered ?p0) = mset ?match"
    unfolding 5 by (rule mset_array_sort)
  have 7: "sorted_wrt (\<lambda>a b. if sortAsc st then lcmp a b < 0 else lcmp b a < 0) (rendered ?p0)"
    if "linear_comparator_on (set (nonFollowers st)) lcmp \<and> distinct (nonFollowers st)"
    unfolding 5 using that by (intro sorted_rendered_p0) simp_all
  have 8: "nonFollowers ?p0 = nonFollowers st"
    by (simp add: renderResults_p0_def Let_def)
  show ?thesis
    using 1 2 3 4 5 6 7 8 by blast
qed

theorem C6_search_shows_the_matching_names_witness:
  "rendered (handleSearchInput asciiLowerCase asciiTrim ''BO''
      (initial_state\<lparr>followersFileLoaded := True, followingFileLoaded := True,
                      nonFollowers := [''amy'', ''bob'', ''carbon'', ''dan'']\<rparr>)) =
     [''bob'', ''carbon''] \<and>
   nonFollowers (handleSearchInput asciiLowerCase asciiTrim ''BO''
      (initial_state\<lparr>followersFileLoaded := True, followingFileLoaded := True,
                      nonFollowers := [''amy'', ''bob'', ''carbon'', ''dan'']\<rparr>)) =
     [''amy'', ''bob'', ''carbon'', ''dan''] \<and>
   rendered (handleSearchInput asciiLowerCase asciiTrim ''  ''
      (initial_state\<lparr>followersFileLoaded := True, followingFileLoaded := True,
                      nonFollowers := [''amy'', ''bob'', ''carbon'', ''dan'']\<rparr>)) =
     [''amy'', ''bob'', ''carbon'', ''dan''] \<and>
   rendered (handleSearchInput asciiLowerCase asciiTrim ''bo''
      (initial_state\<lparr>followersFileLoaded := True,
                      nonFollowers := [''amy'', ''bob'', ''carbon'', ''dan'']\<rparr>)) = [] \<and>
   sorted_wrt (\<lambda>a b. codeUnitCompare b a < 0)
     (rendered (renderResults_p0 codeUnitCompare asciiLowerCase
        (initial_state\<lparr>sortAsc := False, nonFollowers := [''amy'', ''bob'', ''carbon'', ''dan''],
                        searchInput := ''BO''\<rparr>)))"
proof -
  let ?st = "initial_state\<lparr>followersFileLoaded := True, followingFileLoaded := True,
                      nonFollowers := [''amy'', ''bob'', ''carbon'', ''dan'']\<rparr>"
  let ?half = "initial_state\<lparr>followersFileLoaded := True,
                      nonFollowers := [''amy'', ''bob'', ''carbon'', ''dan'']\<rparr>"
  let ?desc = "initial_state\<lparr>sortAsc := False, nonFollowers := [''amy'', ''bob'', ''carbon'', ''dan'']\<rparr>"
  have l: "followersFileLoaded ?st \<and> followingFileLoaded ?st \<and> \<not> isDataProcessing ?st"
    by (simp add: initial_state_def)
  have h: "(\<not> followersFileLoaded ?half \<or> \<not> followingFileLoaded ?half) \<and> \<not> isDataProcessing ?half"
    by (simp add: initial_state_def)
  have d: "linear_comparator_on (set (nonFollowers ?desc)) codeUnitCompare \<and>
           distinct (nonFollowers ?desc)"
    by (simp add: initial_state_def linear_codeUnitCompare)
  have f: "filter (\<lambda>user. str_includes (asciiLowerCase user) (asciiTrim (asciiLowerCase ''BO'')))
             [''amy'', ''bob'', ''carbon'', ''dan''] = [''bob'', ''carbon'']"
    by code_simp
  have e: "asciiTrim (asciiLowerCase ''  '') = []"
    by code_simp
  have n: "nonFollowers ?st = [''amy'', ''bob'', ''carbon'', ''dan'']"
    by (simp add: initial_state_def)
  have 1: "rendered (handleSearchInput asciiLowerCase asciiTrim ''BO'' ?st) =
        filter (\<lambda>user. str_includes (asciiLowerCase user) (asciiTrim (asciiLowerCase ''BO'')))
          (nonFollowers ?st)"
    by (rule C6_search_shows_the_matching_names [where st = ?st and s = "''BO''"
          and toLowerCase = asciiLowerCase and trim = asciiTrim,
          THEN conjunct1, THEN mp, OF l, THEN conjunct1])
  have 2: "rendered (handleSearchInput asciiLowerCase asciiTrim ''  '' ?st) = nonFollowers ?st"
    by (rule C6_search_shows_the_matching_names [where st = ?st and s = "''  ''"
          and toLowerCase = asciiLowerCase and trim = asciiTrim,
          THEN conjunct1, THEN mp, OF l, THEN conjunct2, THEN mp, OF e])
  have 3: "rendered (handleSearchInput asciiLowerCase asciiTrim ''bo'' ?half) = []"
    by (rule C6_search_shows_the_matching_names [where st = ?half and s = "''bo''"
          and toLowerCase = asciiLowerCase and trim = asciiTrim,
          THEN conjunct2, THEN conjunct1, THEN mp, OF h])
  have 4: "nonFollowers (handleSearchInput asciiLowerCase asciiTrim ''BO'' ?st) = nonFollowers ?st"
    by (rule C6_search_shows_the_matching_names [where st = ?st and s = "''BO''"
          and toLowerCase = asciiLowerCase and trim = asciiTrim,
          THEN conjunct2, THEN conjunct2, THEN conjunct2, THEN conjunct1])
  have 5: "sorted_wrt (\<lambda>a b. if sortAsc ?desc then codeUnitCompare a b < 0 else codeUnitCompare b a < 0)
        (rendered (renderResults_p0 codeUnitCompare asciiLowerCase (?desc\<lparr>searchInput := ''BO''\<rparr>)))"
    by (rule C6_search_shows_the_matching_names [where st = ?desc and s = "''BO''"
          and lcmp = codeUnitCompare and toLowerCase = asciiLowerCase,
          THEN conjunct2, THEN conjunct2, THEN conjunct2, THEN conjunct2, THEN conjunct2,
          THEN conjunct2, THEN conjunct1, THEN mp, OF d])
  have s: "sortAsc ?desc = False" by (simp add: initial_state_def)
  show ?thesis
    using 1 2 3 4 5 unfolding f n s by simp
qed

text \<open>
  C6 as stated fails. The second analyzer trims the term, so \<^verbatim>\<open>"b "\<close> shows \<^verbatim>\<open>bob\<close>, which
  does not contain it. After an upload that failed, the second analyzer shows nothing for
  any text, while \<^verbatim>\<open>nonFollowers\<close> still holds the names that match. And the first analyzer
  sorts the shown list by the current flag while its \<^verbatim>\<open>toggleSort\<close> leaves \<^verbatim>\<open>nonFollowers\<close>
  in its old order, so the empty term does not show the list in the order it is kept.
\<close>

theorem C6_search_term_is_trimmed:
  "rendered (handleSearchInput asciiLowerCase asciiTrim ''b ''
      (initial_state\<lparr>followersFileLoaded := True, followingFileLoaded := True,
                      nonFollowers := [''bob'']\<rparr>)) = [''bob''] \<and>
   \<not> str_includes (asciiLowerCase ''bob'') (asciiLowerCase ''b '') \<and>
   nonFollowers (handleFileUpload (\<lambda>t. Inl ''Unexpected token n'') codeUnitCompare
      asciiLowerCase asciiTrim
      \<lparr>target_id = ''followersFile'',
        target_file = Some \<lparr>file_name = ''followers_1.json'', file_content = ReadText ''{not json''\<rparr>\<rparr>
      (initial_state\<lparr>followersFileLoaded := True, followingFileLoaded := True,
                      nonFollowers := [''bob'']\<rparr>)) = [''bob''] \<and>
   rendered (handleSearchInput asciiLowerCase asciiTrim ''bob''
      (handleFileUpload (\<lambda>t. Inl ''Unexpected token n'') codeUnitCompare
         asciiLowerCase asciiTrim
         \<lparr>target_id = ''followersFile'',
           target_file = Some \<lparr>file_name = ''followers_1.json'', file_content = ReadText ''{not json''\<rparr>\<rparr>
         (initial_state\<lparr>followersFileLoaded := True, followingFileLoaded := True,
                         nonFollowers := [''bob'']\<rparr>))) = [] \<and>
   nonFollowers (toggleSort_p0 codeUnitCompare asciiLowerCase
      (calculateNonFollowers_p0 codeUnitCompare
         (initial_state\<lparr>following := [''a'', ''b'']\<rparr>))) = [''a'', ''b''] \<and>
   rendered (toggleSort_p0 codeUnitCompare asciiLowerCase
      (calculateNonFollowers_p0 codeUnitCompare
         (initial_state\<lparr>following := [''a'', ''b'']\<rparr>))) = [''b'', ''a'']"
  by code_simp

section \<open>An empty side\<close>






section \<open>Sorting in both directions\<close>

lemma sortNonFollowers_sortAsc [simp]: "sortAsc (sortNonFollowers lcmp st) = sortAsc st"
  by (simp add: sortNonFollowers_def)

text \<open>
  C7 (amended). For a list without repetition (of any length) in which \<^verbatim>\<open>localeCompare\<close>
  ties no two different names and orders the names linearly: sorting ascending gives the
  names in ascending order, and sorting descending after that gives exactly the reverse of
  the ascending list. In the second analyzer this is the list \<^verbatim>\<open>nonFollowers\<close> itself,
  after \<^verbatim>\<open>sortNonFollowers\<close> and after \<^verbatim>\<open>toggleSort\<close>, and the list shown is drawn from
  it; in the first analyzer, where \<^verbatim>\<open>toggleSort\<close> only draws again, it is the list shown,
  which holds the names that match the search text. Two names that \<^verbatim>\<open>localeCompare\<close> ties
  stay as they are in both directions, whatever else the comparator does: a list of two such
  names is not reversed.
\<close>

theorem C7_descending_is_the_reverse_of_ascending:
  "(linear_comparator_on (set (nonFollowers st)) lcmp \<and> distinct (nonFollowers st) \<longrightarrow>
      sorted_wrt (\<lambda>a b. lcmp a b < 0)
        (nonFollowers (sortNonFollowers lcmp (st\<lparr>sortAsc := True\<rparr>))) \<and>
      mset (nonFollowers (sortNonFollowers lcmp (st\<lparr>sortAsc := True\<rparr>))) =
        mset (nonFollowers st) \<and>
      nonFollowers (sortNonFollowers lcmp
          ((sortNonFollowers lcmp (st\<lparr>sortAsc := True\<rparr>))\<lparr>sortAsc := False\<rparr>)) =
        rev (nonFollowers (sortNonFollowers lcmp (st\<lparr>sortAsc := True\<rparr>))) \<and>
      (sortAsc st \<longrightarrow>
         nonFollowers (toggleSort lcmp toLowerCase trim (sortNonFollowers lcmp st)) =
           rev (nonFollowers (sortNonFollowers lcmp st))) \<and>
      (sortAsc st \<and> followersFileLoaded st \<and> followingFileLoaded st \<and>
       \<not> isDataProcessing st \<longrightarrow>
         rendered (toggleSort lcmp toLowerCase trim (sortNonFollowers lcmp st)) =
           filter (\<lambda>user. str_includes (toLowerCase user) (trim (toLowerCase (searchInput st))))
             (rev (nonFollowers (sortNonFollowers lcmp st)))) \<and>
      sorted_wrt (\<lambda>a b. lcmp a b < 0)
        (rendered (renderResults_p0 lcmp toLowerCase (st\<lparr>sortAsc := True\<rparr>))) \<and>
      mset (rendered (renderResults_p0 lcmp toLowerCase (st\<lparr>sortAsc := True\<rparr>))) =
        mset (filter (\<lambda>user. str_includes (toLowerCase user) (toLowerCase (searchInput st)))
                (nonFollowers st)) \<and>
      rendered (toggleSort_p0 lcmp toLowerCase (st\<lparr>sortAsc := True\<rparr>)) =
        rev (rendered (renderResults_p0 lcmp toLowerCase (st\<lparr>sortAsc := True\<rparr>)))) \<and>
   (nonFollowers st = [x, y] \<and> sortAsc st \<and> lcmp x y = 0 \<longrightarrow>
      nonFollowers (sortNonFollowers lcmp st) = [x, y] \<and>
      nonFollowers (toggleSort lcmp toLowerCase trim (sortNonFollowers lcmp st)) = [x, y])"
proof -
  have ordered:
     "sorted_wrt (\<lambda>a b. lcmp a b < 0)
        (nonFollowers (sortNonFollowers lcmp (st\<lparr>sortAsc := True\<rparr>))) \<and>
      mset (nonFollowers (sortNonFollowers lcmp (st\<lparr>sortAsc := True\<rparr>))) =
        mset (nonFollowers st) \<and>
      nonFollowers (sortNonFollowers lcmp
          ((sortNonFollowers lcmp (st\<lparr>sortAsc := True\<rparr>))\<lparr>sortAsc := False\<rparr>)) =
        rev (nonFollowers (sortNonFollowers lcmp (st\<lparr>sortAsc := True\<rparr>))) \<and>
      (sortAsc st \<longrightarrow>
         nonFollowers (toggleSort lcmp toLowerCase trim (sortNonFollowers lcmp st)) =
           rev (nonFollowers (sortNonFollowers lcmp st))) \<and>
      (sortAsc st \<and> followersFileLoaded st \<and> followingFileLoaded st \<and>
       \<not> isDataProcessing st \<longrightarrow>
         rendered (toggleSort lcmp toLowerCase trim (sortNonFollowers lcmp st)) =
           filter (\<lambda>user. str_includes (toLowerCase user) (trim (toLowerCase (searchInput st))))
             (rev (nonFollowers (sortNonFollowers lcmp st)))) \<and>
      sorted_wrt (\<lambda>a b. lcmp a b < 0)
        (rendered (renderResults_p0 lcmp toLowerCase (st\<lparr>sortAsc := True\<rparr>))) \<and>
      mset (rendered (renderResults_p0 lcmp toLowerCase (st\<lparr>sortAsc := True\<rparr>))) =
        mset (filter (\<lambda>user. str_includes (toLowerCase user) (toLowerCase (searchInput st)))
                (nonFollowers st)) \<and>
      rendered (toggleSort_p0 lcmp toLowerCase (st\<lparr>sortAsc := True\<rparr>)) =
        rev (rendered (renderResults_p0 lcmp toLowerCase (st\<lparr>sortAsc := True\<rparr>)))"
    if lin: "linear_comparator_on (set (nonFollowers st)) lcmp" and dis: "distinct (nonFollowers st)"
  proof -
    let ?xs = "nonFollowers st"
    let ?A = "set ?xs"
    let ?asc = "array_sort lcmp ?xs"
    have neg: "linear_comparator_on ?A (\<lambda>a b. - lcmp a b)"
      by (rule linear_comparator_on_neg [OF lin])
    have swap: "linear_comparator_on ?A (\<lambda>a b. lcmp b a)"
      by (rule linear_comparator_on_swap [OF lin])
    have flip_neg: "(- lcmp a b < 0) = (lcmp b a < 0)" if "a \<in> ?A" "b \<in> ?A" for a b
      using linear_comparator_on_flip [OF lin that(2) that(1)] by auto
    have r: "array_sort (\<lambda>a b. - lcmp a b) ?asc = rev ?asc"
      by (rule array_sort_reversed [OF lin neg flip_neg dis])
         (simp_all add: distinct_array_sort set_array_sort dis)
    have asc: "nonFollowers (sortNonFollowers lcmp (st\<lparr>sortAsc := True\<rparr>)) = ?asc"
      by (simp add: sortNonFollowers_def Let_def)
    have 1: "sorted_wrt (\<lambda>a b. lcmp a b < 0)
               (nonFollowers (sortNonFollowers lcmp (st\<lparr>sortAsc := True\<rparr>)))"
      unfolding asc using sorted_array_sort [OF lin dis] by simp
    have 2: "mset (nonFollowers (sortNonFollowers lcmp (st\<lparr>sortAsc := True\<rparr>))) = mset ?xs"
      unfolding asc by (rule mset_array_sort)
    have 3: "nonFollowers (sortNonFollowers lcmp
               ((sortNonFollowers lcmp (st\<lparr>sortAsc := True\<rparr>))\<lparr>sortAsc := False\<rparr>)) =
             rev (nonFollowers (sortNonFollowers lcmp (st\<lparr>sortAsc := True\<rparr>)))"
      using r by (simp add: sortNonFollowers_def Let_def)
    have 4: "nonFollowers (toggleSort lcmp toLowerCase trim (sortNonFollowers lcmp st)) =
                rev (nonFollowers (sortNonFollowers lcmp st))" if "sortAsc st"
      using r that by (simp add: toggleSort_def sortNonFollowers_def Let_def renderResults_def)
    have 5: "rendered (toggleSort lcmp toLowerCase trim (sortNonFollowers lcmp st)) =
                filter (\<lambda>user. str_includes (toLowerCase user) (trim (toLowerCase (searchInput st))))
                  (rev (nonFollowers (sortNonFollowers lcmp st)))"
      if "sortAsc st \<and> followersFileLoaded st \<and> followingFileLoaded st \<and> \<not> isDataProcessing st"
      using r that
      by (simp add: toggleSort_def sortNonFollowers_def Let_def renderResults_def str_includes_Nil)
    let ?f = "filter (\<lambda>user. str_includes (toLowerCase user) (toLowerCase (searchInput st))) ?xs"
    have shown: "rendered (renderResults_p0 lcmp toLowerCase (st\<lparr>sortAsc := True\<rparr>)) =
                   array_sort lcmp ?f"
      by (simp add: renderResults_p0_def Let_def)
    have 6: "sorted_wrt (\<lambda>a b. lcmp a b < 0)
               (rendered (renderResults_p0 lcmp toLowerCase (st\<lparr>sortAsc := True\<rparr>)))"
      unfolding shown using sorted_array_sort [OF lin, of ?f] dis by auto
    have 7: "mset (rendered (renderResults_p0 lcmp toLowerCase (st\<lparr>sortAsc := True\<rparr>))) = mset ?f"
      unfolding shown by (rule mset_array_sort)
    have "array_sort (\<lambda>a b. lcmp b a) ?f = rev (array_sort lcmp ?f)"
    proof (rule array_sort_reversed [OF linear_comparator_on_subset [OF lin]
          linear_comparator_on_subset [OF swap]])
      show "set ?f \<subseteq> ?A" "set ?f \<subseteq> ?A" by auto
      show "distinct ?f" "distinct ?f" using dis by simp_all
    qed simp_all
    then have 8: "rendered (toggleSort_p0 lcmp toLowerCase (st\<lparr>sortAsc := True\<rparr>)) =
             rev (rendered (renderResults_p0 lcmp toLowerCase (st\<lparr>sortAsc := True\<rparr>)))"
      by (simp add: toggleSort_p0_def renderResults_p0_def Let_def)
    show ?thesis using 1 2 3 4 5 6 7 8 by blast
  qed
  have tied:
     "nonFollowers (sortNonFollowers lcmp st) = [x, y] \<and>
      nonFollowers (toggleSort lcmp toLowerCase trim (sortNonFollowers lcmp st)) = [x, y]"
    if "nonFollowers st = [x, y] \<and> sortAsc st \<and> lcmp x y = 0"
    using that
    by (simp add: toggleSort_def sortNonFollowers_def Let_def renderResults_def array_sort_def)
  show ?thesis
    using ordered tied by blast
qed

theorem C7_descending_is_the_reverse_of_ascending_witness:
  "nonFollowers (sortNonFollowers codeUnitCompare
      (initial_state\<lparr>nonFollowers := [''bob'', ''amy'', ''cat'']\<rparr>)) = [''amy'', ''bob'', ''cat''] \<and>
   nonFollowers (toggleSort codeUnitCompare asciiLowerCase asciiTrim
      (sortNonFollowers codeUnitCompare
         (initial_state\<lparr>nonFollowers := [''bob'', ''amy'', ''cat'']\<rparr>))) = [''cat'', ''bob'', ''amy''] \<and>
   rendered (renderResults_p0 codeUnitCompare asciiLowerCase
      (initial_state\<lparr>nonFollowers := [''bob'', ''amy'', ''cat'']\<rparr>)) = [''amy'', ''bob'', ''cat''] \<and>
   rendered (toggleSort_p0 codeUnitCompare asciiLowerCase
      (initial_state\<lparr>nonFollowers := [''bob'', ''amy'', ''cat'']\<rparr>)) = [''cat'', ''bob'', ''amy'']"
proof -
  let ?st = "initial_state\<lparr>nonFollowers := [''bob'', ''amy'', ''cat'']\<rparr>"
  have l: "linear_comparator_on (set (nonFollowers ?st)) codeUnitCompare"
    by (rule linear_codeUnitCompare)
  have d: "distinct (nonFollowers ?st)" by (simp add: initial_state_def)
  have a: "sortAsc ?st" by (simp add: initial_state_def)
  have t: "?st\<lparr>sortAsc := True\<rparr> = ?st" by (simp add: initial_state_def)
  have v: "nonFollowers (sortNonFollowers codeUnitCompare ?st) = [''amy'', ''bob'', ''cat'']"
    "rendered (renderResults_p0 codeUnitCompare asciiLowerCase ?st) = [''amy'', ''bob'', ''cat'']"
    by code_simp+
  have ld: "linear_comparator_on (set (nonFollowers ?st)) codeUnitCompare \<and>
            distinct (nonFollowers ?st)"
    using l d by simp
  have 1: "nonFollowers (toggleSort codeUnitCompare asciiLowerCase asciiTrim
             (sortNonFollowers codeUnitCompare ?st)) =
           rev (nonFollowers (sortNonFollowers codeUnitCompare ?st))"
    by (rule C7_descending_is_the_reverse_of_ascending [where st = ?st and lcmp = codeUnitCompare
          and toLowerCase = asciiLowerCase and trim = asciiTrim,
          THEN conjunct1, THEN mp, OF ld, THEN conjunct2, THEN conjunct2,
          THEN conjunct2, THEN conjunct1, THEN mp, OF a])
  have 2: "rendered (toggleSort_p0 codeUnitCompare asciiLowerCase (?st\<lparr>sortAsc := True\<rparr>)) =
           rev (rendered (renderResults_p0 codeUnitCompare asciiLowerCase (?st\<lparr>sortAsc := True\<rparr>)))"
    by (rule C7_descending_is_the_reverse_of_ascending [where st = ?st and lcmp = codeUnitCompare
          and toLowerCase = asciiLowerCase,
          THEN conjunct1, THEN mp, OF ld, THEN conjunct2, THEN conjunct2,
          THEN conjunct2, THEN conjunct2, THEN conjunct2, THEN conjunct2, THEN conjunct2])
  show ?thesis
    using 1 2 unfolding t v by simp
qed

text \<open>
  C7 as stated fails: \<^verbatim>\<open>localeCompare\<close> ties names that differ only in a character its
  collation ignores, like \<^verbatim>\<open>a\<close> and \<^verbatim>\<open>a\<close> followed by the control character U+0001,
  and \<^verbatim>\<open>Array.prototype.sort\<close> is stable. The list of these two names has no repetition
  and has size 2, and it is the same in ascending and in descending order: not reversed.
\<close>

theorem C7_tied_names_are_not_reversed:
  "distinct [''a'', [CHR ''a'', CHR 0x01]] \<and>
   controlBlindCompare ''a'' [CHR ''a'', CHR 0x01] = 0 \<and>
   nonFollowers (sortNonFollowers controlBlindCompare
      (initial_state\<lparr>nonFollowers := [''a'', [CHR ''a'', CHR 0x01]]\<rparr>)) =
     [''a'', [CHR ''a'', CHR 0x01]] \<and>
   nonFollowers (toggleSort controlBlindCompare asciiLowerCase asciiTrim
      (sortNonFollowers controlBlindCompare
         (initial_state\<lparr>nonFollowers := [''a'', [CHR ''a'', CHR 0x01]]\<rparr>))) =
     [''a'', [CHR ''a'', CHR 0x01]] \<and>
   nonFollowers (toggleSort controlBlindCompare asciiLowerCase asciiTrim
      (sortNonFollowers controlBlindCompare
         (initial_state\<lparr>nonFollowers := [''a'', [CHR ''a'', CHR 0x01]]\<rparr>))) \<noteq>
     rev (nonFollowers (sortNonFollowers controlBlindCompare
      (initial_state\<lparr>nonFollowers := [''a'', [CHR ''a'', CHR 0x01]]\<rparr>))) \<and>
   rendered (renderResults_p0 controlBlindCompare asciiLowerCase
      (initial_state\<lparr>nonFollowers := [''a'', [CHR ''a'', CHR 0x01]]\<rparr>)) =
     [''a'', [CHR ''a'', CHR 0x01]] \<and>
   rendered (toggleSort_p0 controlBlindCompare asciiLowerCase
      (initial_state\<lparr>nonFollowers := [''a'', [CHR ''a'', CHR 0x01]]\<rparr>)) =
     [''a'', [CHR ''a'', CHR 0x01]]"
  by code_simp

section \<open>Batches\<close>

lemma call_processor_fields [simp]:
  "index (call_processor p x r) = index r"
  "events (call_processor p x r) = events r @ [Call x]"
  "ust (call_processor p x r) = fst (p x (ust r))"
  by (simp_all add: call_processor_def split: prod.splits)

lemma call_processor_update [simp]:
  "call_processor p x (r\<lparr>index := i\<rparr>) = (call_processor p x r)\<lparr>index := i\<rparr>"
  by (simp add: call_processor_def split: prod.splits)

lemma run_items_Nil [simp]: "run_items p [] r = r"
  by (simp add: run_items_def)

lemma run_items_Cons [simp]: "run_items p (x # xs) r = run_items p xs (call_processor p x r)"
  by (simp add: run_items_def)

lemma run_items_append: "run_items p (xs @ ys) r = run_items p ys (run_items p xs r)"
  by (simp add: run_items_def)

lemma run_items_fields [simp]:
  "index (run_items p xs r) = index r"
  "events (run_items p xs r) = events r @ map Call xs"
  "ust (run_items p xs r) = foldl (\<lambda>s x. fst (p x s)) (ust r) xs"
  by (induction xs arbitrary: r) simp_all

lemma run_items_update [simp]:
  "run_items p xs (r\<lparr>index := i\<rparr>) = (run_items p xs r)\<lparr>index := i\<rparr>"
  by (induction xs arbitrary: r) simp_all

lemma run_items_eq:
  "run_items p xs r =
     r\<lparr>ust := foldl (\<lambda>s x. fst (p x s)) (ust r) xs, events := events r @ map Call xs\<rparr>"
proof -
  have "run_items p xs r = r\<lparr>ust := ust (run_items p xs r), events := events (run_items p xs r)\<rparr>"
    by (induction xs arbitrary: r) (simp_all add: call_processor_def split: prod.splits)
  then show ?thesis by simp
qed

lemma batch_loop_run_items:
  "index r \<le> stop \<Longrightarrow> stop \<le> length data \<Longrightarrow>
   batch_loop p data stop r =
     (run_items p (take (stop - index r) (drop (index r) data)) r)\<lparr>index := stop\<rparr>"
proof (induction p data stop r rule: batch_loop.induct)
  case (1 p data stop r)
  show ?case
  proof (cases "index r < stop")
    case True
    let ?r' = "(call_processor p (data ! index r) r)\<lparr>index := index r + 1\<rparr>"
    have i: "index r < length data" using True "1.prems" by simp
    have t: "take (stop - index r) (drop (index r) data) =
             data ! index r # take (stop - (index r + 1)) (drop (index r + 1) data)"
      using True i by (metis Cons_nth_drop_Suc Suc_diff_Suc Suc_eq_plus1 take_Suc_Cons)
    have "batch_loop p data stop r = batch_loop p data stop ?r'"
      using True by (subst batch_loop.simps) simp
    also have "\<dots> = (run_items p (take (stop - index ?r') (drop (index ?r') data)) ?r')\<lparr>index := stop\<rparr>"
      using "1.IH" [OF True] True "1.prems" by simp
    also have "\<dots> = (run_items p (take (stop - index r) (drop (index r) data)) r)\<lparr>index := stop\<rparr>"
      by (simp add: t)
    finally show ?thesis .
  next
    case False
    then have "index r = stop" using "1.prems" by simp
    then show ?thesis by (subst batch_loop.simps) simp
  qed
qed

lemma ceil_div_0 [simp]: "ceil_div 0 b = 0"
  by (cases b) (simp_all add: ceil_div_def)

lemma ceil_div_pos: "0 < b \<Longrightarrow> 0 < m \<Longrightarrow> ceil_div m b = (m - 1) div b + 1"
proof -
  assume b: "0 < b" and m: "0 < m"
  have "m + b - 1 = (m - 1) + b" using m by simp
  then have "(m + b - 1) div b = ((m - 1) + b) div b" by simp
  also have "\<dots> = (m - 1) div b + 1" using b by (simp only: div_add_self2)
  finally show ?thesis by (simp only: ceil_div_def)
qed

lemma ceil_div_small: "0 < b \<Longrightarrow> 0 < m \<Longrightarrow> m \<le> b \<Longrightarrow> ceil_div m b = 1"
  by (simp add: ceil_div_pos)

lemma ceil_div_step: "0 < b \<Longrightarrow> b < m \<Longrightarrow> ceil_div m b = 1 + ceil_div (m - b) b"
proof -
  assume b: "0 < b" and m: "b < m"
  have "m - 1 = (m - b - 1) + b" using b m by simp
  then have "(m - 1) div b = ((m - b - 1) + b) div b" by simp
  also have "\<dots> = (m - b - 1) div b + 1" using b by (simp only: div_add_self2)
  finally show ?thesis using b m by (simp add: ceil_div_pos)
qed

text \<open>\<open>ceil_div n b\<close> is the least number of slices of \<open>b\<close> elements that hold \<open>n\<close>
  elements.\<close>

lemma ceil_div_bounds:
  "0 < b \<Longrightarrow> 0 < n \<Longrightarrow> (ceil_div n b - 1) * b < n \<and> n \<le> ceil_div n b * b"
proof -
  assume b: "0 < b" and n: "0 < n"
  let ?q = "(n - 1) div b"
  have "?q * b \<le> n - 1" by simp
  then have 1: "?q * b < n" using n by linarith
  have "n - 1 < ?q * b + b"
    using b dividend_less_div_times [of b "n - 1"] by (simp add: mult.commute)
  then have 2: "n \<le> (?q + 1) * b" using n by simp
  show ?thesis using 1 2 b n by (simp add: ceil_div_pos)
qed

lemma slices_Nil [simp]: "slices b [] = []"
  by (subst slices.simps) simp

lemma slices_step: "0 < b \<Longrightarrow> xs \<noteq> [] \<Longrightarrow> slices b xs = take b xs # slices b (drop b xs)"
  by (subst slices.simps) simp

lemma slices_small: "0 < b \<Longrightarrow> xs \<noteq> [] \<Longrightarrow> length xs \<le> b \<Longrightarrow> slices b xs = [xs]"
  by (simp add: slices_step)

lemma slices_not_Nil: "0 < b \<Longrightarrow> xs \<noteq> [] \<Longrightarrow> slices b xs \<noteq> []"
  by (simp add: slices_step)

lemma concat_slices: "0 < b \<Longrightarrow> concat (slices b xs) = xs"
proof (induction b xs rule: slices.induct)
  case (1 b xs)
  show ?case
  proof (cases "xs = []")
    case True
    then show ?thesis by simp
  next
    case False
    then show ?thesis using 1 by (simp add: slices_step)
  qed
qed

lemma length_slices: "0 < b \<Longrightarrow> length (slices b xs) = ceil_div (length xs) b"
proof (induction b xs rule: slices.induct)
  case (1 b xs)
  show ?case
  proof (cases "xs = []")
    case True
    then show ?thesis by simp
  next
    case False
    show ?thesis
    proof (cases "length xs \<le> b")
      case True
      then show ?thesis
        using False "1.prems" by (simp add: slices_small ceil_div_small)
    next
      case long: False
      then have "ceil_div (length xs) b = 1 + ceil_div (length xs - b) b"
        using ceil_div_step [OF "1.prems", of "length xs"] by simp
      then show ?thesis using 1 False by (simp add: slices_step)
    qed
  qed
qed

lemma slices_bounded:
  "0 < b \<Longrightarrow> c \<in> set (slices b xs) \<Longrightarrow> c \<noteq> [] \<and> length c \<le> b"
proof (induction b xs arbitrary: c rule: slices.induct)
  case (1 b xs)
  show ?case
  proof (cases "xs = []")
    case True
    with "1.prems" show ?thesis by simp
  next
    case False
    then have "c = take b xs \<or> c \<in> set (slices b (drop b xs))"
      using "1.prems" by (simp add: slices_step)
    then show ?thesis
      using "1.IH" "1.prems"(1) False by auto
  qed
qed

lemma calls_of_append [simp]: "calls_of (es @ fs) = calls_of es @ calls_of fs"
  by (induction es rule: calls_of.induct) simp_all

lemma calls_of_map_Call [simp]: "calls_of (map Call xs) = xs"
  by (induction xs) simp_all

lemma yields_of_append [simp]: "yields_of (es @ fs) = yields_of es + yields_of fs"
  by (induction es rule: yields_of.induct) simp_all

lemma yields_of_map_Call [simp]: "yields_of (map Call xs) = 0"
  by (induction xs) simp_all

lemma calls_of_batch_events: "calls_of (batch_events cs) = concat cs"
  by (induction cs rule: batch_events.induct) simp_all

lemma yields_of_batch_events: "yields_of (batch_events cs) = length cs - 1"
  by (induction cs rule: batch_events.induct) simp_all

text \<open>What \<^verbatim>\<open>processBatch\<close> does from any index on, for any batch size that is not 0: it
  resolves, and the events it adds are those of the batches of the elements left.\<close>

lemma processBatch_result:
  assumes b: "0 < b"
  shows "index r \<le> length data \<Longrightarrow>
     processBatch b p data r =
       Some (r\<lparr>index := length data,
               ust := foldl (\<lambda>s x. fst (p x s)) (ust r) (drop (index r) data),
               events := events r @ batch_events (slices b (drop (index r) data))\<rparr>)"
proof (induction "length data - index r" arbitrary: r rule: less_induct)
  case less
  let ?n = "length data"
  let ?i = "index r"
  let ?f = "\<lambda>s x. fst (p x s)"
  define stop where "stop = min (?i + b) ?n"
  define r1 where "r1 = batch_loop p data stop r"
  have r1: "r1 = r\<lparr>index := stop,
                    ust := foldl ?f (ust r) (take (stop - ?i) (drop ?i data)),
                    events := events r @ map Call (take (stop - ?i) (drop ?i data))\<rparr>"
    unfolding r1_def using less.prems
    by (subst batch_loop_run_items) (simp_all add: stop_def run_items_eq)
  have unfold: "processBatch b p data r =
          (if index r1 < ?n then processBatch b p data (r1\<lparr>events := events r1 @ [Yield]\<rparr>)
           else Some r1)"
    by (subst processBatch.simps) (simp add: Let_def r1_def stop_def)
  show ?case
  proof (cases "?i + b < ?n")
    case True
    define r2 where "r2 = r1\<lparr>events := events r1 @ [Yield]\<rparr>"
    have stop: "stop = ?i + b" using True by (simp add: stop_def)
    have r2: "r2 = r\<lparr>index := ?i + b,
                      ust := foldl ?f (ust r) (take b (drop ?i data)),
                      events := events r @ map Call (take b (drop ?i data)) @ [Yield]\<rparr>"
      unfolding r2_def r1 stop by simp
    have i2: "index r2 = ?i + b" by (simp add: r2)
    have step: "processBatch b p data r = processBatch b p data r2"
      using unfold True by (simp add: r2_def r1 stop)
    have smaller: "?n - index r2 < ?n - ?i" using i2 True b by simp
    have le: "index r2 \<le> ?n" using i2 True by simp
    have dd: "drop b (drop ?i data) = drop (?i + b) data"
      by (simp add: add.commute)
    have ne: "drop ?i data \<noteq> []" using True by simp
    have ne2: "drop (?i + b) data \<noteq> []" using True by simp
    obtain c cs where rest: "slices b (drop (?i + b) data) = c # cs"
      using slices_not_Nil [OF b ne2] by (cases "slices b (drop (?i + b) data)") simp_all
    have sl: "slices b (drop ?i data) = take b (drop ?i data) # c # cs"
      using slices_step [OF b ne] unfolding dd rest .
    have ev: "batch_events (slices b (drop ?i data)) =
              map Call (take b (drop ?i data)) @ Yield # batch_events (slices b (drop (?i + b) data))"
      by (simp add: sl rest)
    have td: "take b (drop ?i data) @ drop (?i + b) data = drop ?i data"
      by (metis add.commute append_take_drop_id drop_drop)
    have fo: "foldl ?f (foldl ?f (ust r) (take b (drop ?i data))) (drop (?i + b) data) =
              foldl ?f (ust r) (drop ?i data)"
      using foldl_append [of ?f "ust r" "take b (drop ?i data)" "drop (?i + b) data"] td by simp
    have "processBatch b p data r2 =
       Some (r2\<lparr>index := ?n,
               ust := foldl ?f (ust r2) (drop (index r2) data),
               events := events r2 @ batch_events (slices b (drop (index r2) data))\<rparr>)"
      by (rule less.hyps [OF smaller le])
    also have "r2\<lparr>index := ?n,
               ust := foldl ?f (ust r2) (drop (index r2) data),
               events := events r2 @ batch_events (slices b (drop (index r2) data))\<rparr> =
          r\<lparr>index := ?n,
               ust := foldl ?f (ust r) (drop ?i data),
               events := events r @ batch_events (slices b (drop ?i data))\<rparr>"
      unfolding ev by (simp add: r2 fo)
    finally show ?thesis using step by simp
  next
    case False
    have stop: "stop = ?n" using False by (simp add: stop_def)
    have all: "take (?n - ?i) (drop ?i data) = drop ?i data" by simp
    have ev: "batch_events (slices b (drop ?i data)) = map Call (drop ?i data)"
    proof (cases "drop ?i data = []")
      case True
      then show ?thesis by simp
    next
      case ne: False
      have "length (drop ?i data) \<le> b" using False by simp
      then show ?thesis using slices_small [OF b ne] by simp
    qed
    have "processBatch b p data r = Some r1"
      using unfold by (simp add: r1 stop)
    also have "r1 = r\<lparr>index := ?n,
               ust := foldl ?f (ust r) (drop ?i data),
               events := events r @ batch_events (slices b (drop ?i data))\<rparr>"
      unfolding ev by (simp add: r1 stop)
    finally show ?thesis .
  qed
qed

text \<open>
  C10. For every array and every processor, throwing or not, \<^verbatim>\<open>processInBatches\<close>
  resolves. Until then the processor has been called exactly once on each element, in index
  order, and the work was done in \<open>\<lceil>n / batchSize\<rceil>\<close> batches: the events of the run are
  the calls on the elements of the first batch, a \<^verbatim>\<open>setTimeout\<close>, the calls on the
  elements of the second batch, and so on, where the batches are the consecutive slices of
  \<^verbatim>\<open>batchSize\<close> elements of the array (the last one may be shorter), and there are
  \<open>\<lceil>n / batchSize\<rceil>\<close> of them. For the empty array that is no batch: no call, no
  \<^verbatim>\<open>setTimeout\<close>, and the promise resolves.
\<close>

theorem C10_every_element_once_in_order:
  "\<exists>r. processInBatches data processor s = Some r \<and>
        calls_of (events r) = data \<and>
        events r = batch_events (slices CONFIG_batchSize data) \<and>
        length (slices CONFIG_batchSize data) = ceil_div (length data) CONFIG_batchSize \<and>
        concat (slices CONFIG_batchSize data) = data \<and>
        (\<forall>c\<in>set (slices CONFIG_batchSize data). c \<noteq> [] \<and> length c \<le> CONFIG_batchSize) \<and>
        yields_of (events r) = ceil_div (length data) CONFIG_batchSize - 1 \<and>
        (data = [] \<longrightarrow> events r = []) \<and>
        ust r = foldl (\<lambda>acc x. fst (processor x acc)) s data \<and>
        index r = length data"
proof -
  have b: "0 < CONFIG_batchSize" by (simp add: CONFIG_batchSize_def)
  let ?r = "\<lparr>index = length data, ust = foldl (\<lambda>acc x. fst (processor x acc)) s data,
             events = batch_events (slices CONFIG_batchSize data)\<rparr>"
  have 1: "processInBatches data processor s = Some ?r"
    using processBatch_result [OF b, of "new_run s" data processor]
    by (simp add: processInBatches_def new_run_def)
  have 2: "calls_of (events ?r) = data"
    by (simp add: calls_of_batch_events concat_slices [OF b])
  have 3: "length (slices CONFIG_batchSize data) = ceil_div (length data) CONFIG_batchSize"
    by (rule length_slices [OF b])
  have 4: "concat (slices CONFIG_batchSize data) = data"
    by (rule concat_slices [OF b])
  have 5: "\<forall>c\<in>set (slices CONFIG_batchSize data). c \<noteq> [] \<and> length c \<le> CONFIG_batchSize"
    using slices_bounded [OF b] by blast
  have 6: "yields_of (events ?r) = ceil_div (length data) CONFIG_batchSize - 1"
    by (simp add: yields_of_batch_events 3)
  have 7: "data = [] \<longrightarrow> events ?r = []"
    by simp
  have 8: "ust ?r = foldl (\<lambda>acc x. fst (processor x acc)) s data" "index ?r = length data"
    by simp_all
  show ?thesis
    using 1 2 3 4 5 6 7 8 by (intro exI [of _ ?r]) simp
qed

theorem C10_every_element_once_in_order_witness:
  "(\<exists>r. processInBatches
          [JObject [(''string_list_data'', JArray [JObject [(''value'', JString ''Amy'')]])],
           JNull,
           JObject [(''string_list_data'', JArray [JObject [(''value'', JString ''bob'')]])]]
          (processData_p0 asciiLowerCase) [] = Some r \<and>
        events r =
          [Call (JObject [(''string_list_data'', JArray [JObject [(''value'', JString ''Amy'')]])]),
           Call JNull,
           Call (JObject [(''string_list_data'', JArray [JObject [(''value'', JString ''bob'')]])])] \<and>
        ust r = [''amy'', ''bob'']) \<and>
   (\<exists>r. processInBatches ([] :: json list) (processData_p0 asciiLowerCase) [] = Some r \<and>
        events r = [] \<and> ust r = []) \<and>
   ceil_div 0 CONFIG_batchSize = 0 \<and>
   processBatch 2 (processData_p0 asciiLowerCase)
     [JObject [(''string_list_data'', JArray [JObject [(''value'', JString ''Amy'')]])],
      JNull,
      JObject [(''string_list_data'', JArray [JObject [(''value'', JString ''bob'')]])]]
     (new_run []) =
   Some \<lparr>index = 3, ust = [''amy'', ''bob''],
         events =
           [Call (JObject [(''string_list_data'', JArray [JObject [(''value'', JString ''Amy'')]])]),
            Call JNull,
            Yield,
            Call (JObject [(''string_list_data'', JArray [JObject [(''value'', JString ''bob'')]])])]\<rparr>"
proof -
  let ?d = "[JObject [(''string_list_data'', JArray [JObject [(''value'', JString ''Amy'')]])],
           JNull,
           JObject [(''string_list_data'', JArray [JObject [(''value'', JString ''bob'')]])]]"
  let ?p = "processData_p0 asciiLowerCase"
  have f: "foldl (\<lambda>acc x. fst (?p x acc)) [] ?d = [''amy'', ''bob'']"
    by code_simp
  have e: "batch_events (slices CONFIG_batchSize ?d) = map Call ?d"
    by code_simp
  have e2: "batch_events (slices 2 ?d) =
     [Call (JObject [(''string_list_data'', JArray [JObject [(''value'', JString ''Amy'')]])]),
      Call JNull, Yield,
      Call (JObject [(''string_list_data'', JArray [JObject [(''value'', JString ''bob'')]])])]"
    by code_simp
  have two: "processBatch 2 ?p ?d (new_run []) =
     Some \<lparr>index = 3, ust = [''amy'', ''bob''],
           events =
             [Call (JObject [(''string_list_data'', JArray [JObject [(''value'', JString ''Amy'')]])]),
              Call JNull, Yield,
              Call (JObject [(''string_list_data'', JArray [JObject [(''value'', JString ''bob'')]])])]\<rparr>"
    using processBatch_result [of 2 "new_run []" ?d ?p] f e2
    by (simp add: new_run_def)
  obtain r where r: "processInBatches ?d ?p [] = Some r"
      "events r = batch_events (slices CONFIG_batchSize ?d)"
      "ust r = foldl (\<lambda>acc x. fst (?p x acc)) [] ?d"
    using C10_every_element_once_in_order [of ?d ?p "[]"] by blast
  obtain r0 where r0: "processInBatches ([] :: json list) ?p [] = Some r0"
      "([] :: json list) = [] \<longrightarrow> events r0 = []"
      "ust r0 = foldl (\<lambda>acc x. fst (?p x acc)) [] []"
    using C10_every_element_once_in_order [of "[] :: json list" ?p "[]"] by blast
  have a: "\<exists>r. processInBatches ?d ?p [] = Some r \<and> events r = map Call ?d \<and>
               ust r = [''amy'', ''bob'']"
    using r e f by auto
  have z: "\<exists>r. processInBatches ([] :: json list) ?p [] = Some r \<and> events r = [] \<and> ust r = []"
    using r0 by auto
  show ?thesis
    using a z two by simp
qed

end
